theory Spec2Isabelle
  imports Main
begin

section \<open>Values and errors\<close>

text \<open>
  The notebook \<^verbatim>\<open>notebooks/22-transform-datasource.ipynb\<close> defines three functions:
  \<^verbatim>\<open>process_raw_data\<close> (cell 10), \<^verbatim>\<open>read_space_delimited\<close> (cell 20) and
  \<^verbatim>\<open>process_lvq_pak\<close> (cell 23). This theory embeds them, together with the behaviour of
  the one library routine that decides what the parser does, the call
  \<^verbatim>\<open>pd.read_csv(fd, skiprows=skiprows, skip_blank_lines=True, comment=None, header=None,
  sep=' ', dtype=str)\<close>.

  A text is a \<^typ>\<open>string\<close>; a cell of an object array is a Python string, the missing value
  \<^verbatim>\<open>nan\<close>, or the float \<^verbatim>\<open>0.0\<close> that \<^verbatim>\<open>np.zeros\<close> produces.
\<close>

datatype cell = Str string | NaN | Zero

text \<open>
  The exceptions the modelled code can raise. \<open>ParserError\<close> and \<open>EmptyDataError\<close> are
  those of \<^verbatim>\<open>pandas.errors\<close>; \<open>Exception\<close> is the builtin raised by
  \<^verbatim>\<open>raise Exception(f'Unknown kind: {kind}')\<close>, carrying its message.
\<close>

datatype error =
    FileNotFoundError
  | EmptyDataError
  | ParserError
  | ValueError
  | IndexError
  | TypeError
  | UnboundLocalError string
  | Exception string

abbreviation (input) LF :: char where "LF \<equiv> CHR 0x0A"
abbreviation (input) CR :: char where "CR \<equiv> CHR 0x0D"
abbreviation (input) TAB :: char where "TAB \<equiv> CHR 0x09"
abbreviation (input) SP :: char where "SP \<equiv> CHR 0x20"
abbreviation (input) QUOTE :: char where "QUOTE \<equiv> CHR 0x22"
abbreviation (input) NUL :: char where "NUL \<equiv> CHR 0x00"

section \<open>Reading the file\<close>

text \<open>
  \<^verbatim>\<open>open(filename, 'r')\<close> opens the file in text mode with universal newlines: what
  \<^verbatim>\<open>read_csv\<close> receives from the handle has every \<^verbatim>\<open>\r\n\<close> and every lone
  \<^verbatim>\<open>\r\<close> replaced by \<^verbatim>\<open>\n\<close>.
\<close>

fun universal_newlines :: "string \<Rightarrow> string" where
  "universal_newlines [] = []"
| "universal_newlines [c] = (if c = CR then [LF] else [c])"
| "universal_newlines (c # d # cs) =
     (if c = CR then (if d = LF then LF # universal_newlines cs
                      else LF # universal_newlines (d # cs))
      else c # universal_newlines (d # cs))"

section \<open>The tokenizer of \<^verbatim>\<open>read_csv\<close>\<close>

text \<open>
  With a one-character \<^verbatim>\<open>sep\<close> the call runs the library's character-level tokenizer, in
  the configuration the arguments and the defaults fix: delimiter \<^verbatim>\<open>' '\<close>, quote
  character \<^verbatim>\<open>'"'\<close> with doubled quotes standing for one, no escape character, no
  comment character (\<^verbatim>\<open>comment=None\<close>), blank lines skipped
  (\<^verbatim>\<open>skip_blank_lines=True\<close>), no header line, a set of line numbers to skip, and
  rows read in blocks (\<^verbatim>\<open>low_memory=True\<close>).
  The states are the tokenizer's own; the carriage-return states are left out because
  \<^const>\<open>universal_newlines\<close> leaves no carriage return in the text, and the comment and escape
  states because no comment or escape character is configured. A text is the sequence of
  bytes of its UTF-8 encoding, which is what the tokenizer reads; files that do not decode
  are outside the model.
\<close>

text \<open>
  A byte-order mark at the very start of the text is dropped before the first character is
  read.
\<close>

definition BOM :: string where
  "BOM = [CHR 0xEF, CHR 0xBB, CHR 0xBF]"

definition check_for_bom :: "string \<Rightarrow> string" where
  "check_for_bom text = (if take 3 text = BOM then drop 3 text else text)"

text \<open>
  The rows are read in blocks of \<open>buffer_lines\<close> rows, a number the reader computes from
  the width of the table (the number of fields of the first row): it starts at 1 and is
  doubled as long as its double is below \<^verbatim>\<open>2**20 // table_width\<close>. It is 262144 for
  tables of two or three columns. The numbers are Python integers. (The test \<open>0 < b\<close> is
  always true, \<open>b\<close> starting at 1; it makes the termination of the loop plain.)
\<close>

function grow_buffer_lines :: "int \<Rightarrow> int \<Rightarrow> int" where
  "grow_buffer_lines heuristic b =
     (if 0 < b \<and> b * 2 < heuristic then grow_buffer_lines heuristic (b * 2) else b)"
  by pat_completeness auto
termination
  by (relation "measure (\<lambda>(heuristic, b). nat (heuristic - b))") auto

declare grow_buffer_lines.simps [simp del]

definition buffer_lines :: "nat \<Rightarrow> int" where
  "buffer_lines table_width = grow_buffer_lines (2 ^ 20 div int table_width) 1"

datatype tstate =
    START_RECORD
  | START_FIELD
  | IN_FIELD
  | IN_QUOTED_FIELD
  | QUOTE_IN_QUOTED_FIELD
  | WHITESPACE_LINE
  | START_FIELD_IN_SKIP_LINE
  | IN_FIELD_IN_SKIP_LINE
  | IN_QUOTED_FIELD_IN_SKIP_LINE
  | QUOTE_IN_QUOTED_FIELD_IN_SKIP_LINE

text \<open>
  The tokenizer's state: \<open>file_lines\<close> counts the lines of the file seen so far (skipped and
  blank ones included), \<open>word\<close> is the field being read, \<open>line\<close> the fields of the row being
  read, \<open>lines\<close> the finished rows of the block being read, \<open>chunks\<close> the blocks read
  before it, and \<open>ws\<close> the characters read since the start of the line while in
  \<open>WHITESPACE_LINE\<close>.
\<close>

record parser =
  state :: tstate
  file_lines :: nat
  word :: string
  line :: "string list"
  lines :: "string list list"
  chunks :: "string list list list"
  ws :: string

definition parser_init :: parser where
  "parser_init =
     \<lparr>state = START_RECORD, file_lines = 0, word = [], line = [], lines = [], chunks = [], ws = []\<rparr>"

definition push_char :: "parser \<Rightarrow> char \<Rightarrow> parser" where
  "push_char p c = p\<lparr>word := word p @ [c]\<rparr>"

definition end_field :: "parser \<Rightarrow> parser" where
  "end_field p = p\<lparr>line := line p @ [word p], word := []\<rparr>"

definition in_skip_line :: "tstate \<Rightarrow> bool" where
  "in_skip_line s \<longleftrightarrow>
     s = START_FIELD_IN_SKIP_LINE \<or> s = IN_FIELD_IN_SKIP_LINE \<or>
     s = IN_QUOTED_FIELD_IN_SKIP_LINE \<or> s = QUOTE_IN_QUOTED_FIELD_IN_SKIP_LINE"

text \<open>
  A finished row joins the rows of the block being read. Its number of fields is compared
  with that of the row before it in the block (there is no header and no list of names):
  a row with more fields is a tokenizing error, a row with fewer fields is filled up with
  empty fields. The first row of a block has no row before it and is taken as it is. When
  the block then holds \<open>buffer_lines\<close> rows it is handed over and a new block begins.
\<close>

definition table_width :: "string list list list \<Rightarrow> string list list \<Rightarrow> nat" where
  "table_width C L = (case concat C @ L of [] \<Rightarrow> 0 | r # _ \<Rightarrow> length r)"

definition push_row ::
  "string list list list \<Rightarrow> string list list \<Rightarrow> string list
     \<Rightarrow> error + (string list list list \<times> string list list)" where
  "push_row C L r =
     (let fields = length r;
          ex_fields = (if L = [] then 0 else length (last L))
      in if L \<noteq> [] \<and> fields > ex_fields then Inl ParserError
         else
           let L' = L @ [r @ replicate (ex_fields - fields) []]
           in if buffer_lines (table_width C L') \<le> int (length L') then Inr (C @ [L'], [])
              else Inr (C, L'))"

text \<open>
  The end of a line. A skipped line only advances the line counter; any other line gives a
  row. The next state is \<open>START_RECORD\<close>.
\<close>

definition end_line :: "parser \<Rightarrow> error + parser" where
  "end_line p =
     (if in_skip_line (state p)
      then Inr (p\<lparr>state := START_RECORD, file_lines := Suc (file_lines p), line := []\<rparr>)
      else
        (case push_row (chunks p) (lines p) (line p) of
           Inl e \<Rightarrow> Inl e
         | Inr (C, L) \<Rightarrow>
             Inr (p\<lparr>state := START_RECORD, file_lines := Suc (file_lines p),
                     line := [], lines := L, chunks := C\<rparr>)))"

text \<open>One character in the four states that read a field of a row that is kept.\<close>

definition field_step :: "parser \<Rightarrow> char \<Rightarrow> error + parser" where
  "field_step p c =
     (case state p of
        START_FIELD \<Rightarrow>
          if c = LF then end_line (end_field p)
          else if c = QUOTE then Inr (p\<lparr>state := IN_QUOTED_FIELD\<rparr>)
          else if c = SP then Inr (end_field p)
          else Inr ((push_char p c)\<lparr>state := IN_FIELD\<rparr>)
      | IN_FIELD \<Rightarrow>
          if c = LF then end_line (end_field p)
          else if c = SP then Inr ((end_field p)\<lparr>state := START_FIELD\<rparr>)
          else Inr (push_char p c)
      | IN_QUOTED_FIELD \<Rightarrow>
          if c = QUOTE then Inr (p\<lparr>state := QUOTE_IN_QUOTED_FIELD\<rparr>)
          else Inr (push_char p c)
      | QUOTE_IN_QUOTED_FIELD \<Rightarrow>
          if c = QUOTE then Inr ((push_char p c)\<lparr>state := IN_QUOTED_FIELD\<rparr>)
          else if c = SP then Inr ((end_field p)\<lparr>state := START_FIELD\<rparr>)
          else if c = LF then end_line (end_field p)
          else Inr ((push_char p c)\<lparr>state := IN_FIELD\<rparr>)
      | _ \<Rightarrow> Inr p)"

fun field_steps :: "parser \<Rightarrow> string \<Rightarrow> error + parser" where
  "field_steps p [] = Inr p"
| "field_steps p (c # cs) =
     (case field_step p c of Inl e \<Rightarrow> Inl e | Inr p' \<Rightarrow> field_steps p' cs)"

text \<open>
  One character in any state. At the start of a record the line number decides whether the
  line is skipped; an empty line is dropped; a tab (white space that is not the delimiter)
  opens \<open>WHITESPACE_LINE\<close>, which drops the line if nothing but tabs follows and otherwise
  goes back to the first character of the line and reads it again as the start of a field.
\<close>

definition step :: "nat list \<Rightarrow> parser \<Rightarrow> char \<Rightarrow> error + parser" where
  "step skipset p c =
     (case state p of
        START_RECORD \<Rightarrow>
          if file_lines p \<in> set skipset then
            (if c = QUOTE then Inr (p\<lparr>state := IN_QUOTED_FIELD_IN_SKIP_LINE\<rparr>)
             else if c = LF then end_line (p\<lparr>state := IN_FIELD_IN_SKIP_LINE\<rparr>)
             else Inr (p\<lparr>state := IN_FIELD_IN_SKIP_LINE\<rparr>))
          else if c = LF then Inr (p\<lparr>file_lines := Suc (file_lines p)\<rparr>)
          else if c = TAB then Inr (p\<lparr>state := WHITESPACE_LINE, ws := [c]\<rparr>)
          else field_step (p\<lparr>state := START_FIELD\<rparr>) c
      | WHITESPACE_LINE \<Rightarrow>
          if c = LF
          then Inr (p\<lparr>state := START_RECORD, file_lines := Suc (file_lines p), ws := []\<rparr>)
          else if c = TAB then Inr (p\<lparr>ws := ws p @ [c]\<rparr>)
          else field_steps (p\<lparr>state := START_FIELD, ws := []\<rparr>) (ws p @ [c])
      | START_FIELD_IN_SKIP_LINE \<Rightarrow>
          if c = LF then end_line p
          else if c = QUOTE then Inr (p\<lparr>state := IN_QUOTED_FIELD_IN_SKIP_LINE\<rparr>)
          else if c = SP then Inr p
          else Inr (p\<lparr>state := IN_FIELD_IN_SKIP_LINE\<rparr>)
      | IN_FIELD_IN_SKIP_LINE \<Rightarrow>
          if c = LF then end_line p
          else if c = SP then Inr (p\<lparr>state := START_FIELD_IN_SKIP_LINE\<rparr>)
          else Inr p
      | IN_QUOTED_FIELD_IN_SKIP_LINE \<Rightarrow>
          if c = QUOTE then Inr (p\<lparr>state := QUOTE_IN_QUOTED_FIELD_IN_SKIP_LINE\<rparr>)
          else Inr p
      | QUOTE_IN_QUOTED_FIELD_IN_SKIP_LINE \<Rightarrow>
          if c = QUOTE then Inr (p\<lparr>state := IN_QUOTED_FIELD_IN_SKIP_LINE\<rparr>)
          else if c = LF then end_line p
          else if c = SP then Inr (p\<lparr>state := START_FIELD_IN_SKIP_LINE\<rparr>)
          else Inr (p\<lparr>state := IN_FIELD_IN_SKIP_LINE\<rparr>)
      | _ \<Rightarrow> field_step p c)"

fun tokenize_bytes :: "nat list \<Rightarrow> parser \<Rightarrow> string \<Rightarrow> error + parser" where
  "tokenize_bytes skipset p [] = Inr p"
| "tokenize_bytes skipset p (c # cs) =
     (case step skipset p c of Inl e \<Rightarrow> Inl e | Inr p' \<Rightarrow> tokenize_bytes skipset p' cs)"

text \<open>
  The end of the text: a row in progress is finished as if a newline followed, a quoted
  field still open is an error (``EOF inside string''), and nothing is pending at the start
  of a record or in a line of tabs.
\<close>

definition parser_handle_eof :: "parser \<Rightarrow> error + parser" where
  "parser_handle_eof p =
     (case state p of
        START_RECORD \<Rightarrow> Inr p
      | WHITESPACE_LINE \<Rightarrow> Inr p
      | IN_QUOTED_FIELD \<Rightarrow> Inl ParserError
      | IN_FIELD \<Rightarrow> end_line (end_field p)
      | START_FIELD \<Rightarrow> end_line (end_field p)
      | QUOTE_IN_QUOTED_FIELD \<Rightarrow> end_line (end_field p)
      | _ \<Rightarrow> end_line p)"

text \<open>The rows of all blocks, in the order read.\<close>

definition tokenize_all_rows :: "nat list \<Rightarrow> string \<Rightarrow> error + string list list" where
  "tokenize_all_rows skipset text =
     (case tokenize_bytes skipset parser_init (check_for_bom text) of
        Inl e \<Rightarrow> Inl e
      | Inr p \<Rightarrow>
          (case parser_handle_eof p of
             Inl e \<Rightarrow> Inl e
           | Inr p' \<Rightarrow> Inr (concat (chunks p') @ lines p')))"

section \<open>The frame returned by \<^verbatim>\<open>read_csv\<close>\<close>

text \<open>
  With \<^verbatim>\<open>header=None\<close> the frame has as many columns as the first row has fields, and a
  text with no row at all raises \<^verbatim>\<open>EmptyDataError\<close>. Column \<open>i\<close> of a row is its field
  \<open>i\<close>, or the empty field when the row has no field \<open>i\<close>; fields beyond the width of the
  frame are left out. A field is read as a C string, so it ends at its first NUL byte.
  With \<^verbatim>\<open>dtype=str\<close> every cell stays a string, except that a field that is one of the
  library's missing-value markers (the empty string is one) becomes \<^verbatim>\<open>nan\<close>. The table of
  markers differs between versions of the library and is a parameter, \<open>na_values\<close>.
  \<^verbatim>\<open>skiprows=None\<close> skips nothing.
\<close>

record frame =
  ncols :: nat
  rows :: "cell list list"

definition to_cell :: "string list \<Rightarrow> string \<Rightarrow> cell" where
  "to_cell na_values s =
     (let w = takeWhile (\<lambda>c. c \<noteq> NUL) s in if w \<in> set na_values then NaN else Str w)"

definition pad_to :: "nat \<Rightarrow> 'a \<Rightarrow> 'a list \<Rightarrow> 'a list" where
  "pad_to w x r = r @ replicate (w - length r) x"

definition convert_row :: "string list \<Rightarrow> nat \<Rightarrow> string list \<Rightarrow> cell list" where
  "convert_row na_values w r = map (to_cell na_values) (take w (pad_to w [] r))"

definition skip_list :: "nat list option \<Rightarrow> nat list" where
  "skip_list skiprows = (case skiprows of None \<Rightarrow> [] | Some s \<Rightarrow> s)"

definition read_csv :: "string list \<Rightarrow> string \<Rightarrow> nat list option \<Rightarrow> error + frame" where
  "read_csv na_values text skiprows =
     (case tokenize_all_rows (skip_list skiprows) text of
        Inl e \<Rightarrow> Inl e
      | Inr ls \<Rightarrow>
          (case ls of
             [] \<Rightarrow> Inl EmptyDataError
           | r # _ \<Rightarrow>
               Inr \<lparr>ncols = length r, rows = map (convert_row na_values (length r)) ls\<rparr>))"

section \<open>\<^verbatim>\<open>read_space_delimited\<close>\<close>

text \<open>
  A path is the list of its components; the file system maps the paths of the files that
  exist to their contents. \<^verbatim>\<open>df.columns[-1]\<close> is the last column label and raises
  \<^verbatim>\<open>IndexError\<close> on a frame without columns; \<^verbatim>\<open>np.zeros(n)\<close> is \<open>n\<close> floats
  \<^verbatim>\<open>0.0\<close>. The \<open>metadata\<close> argument is returned as it came.
\<close>

type_synonym path = "string list"

definition np_zeros :: "nat \<Rightarrow> cell list" where
  "np_zeros n = replicate n Zero"

definition read_space_delimited ::
  "(path \<rightharpoonup> string) \<Rightarrow> string list \<Rightarrow> path \<Rightarrow> nat list option \<Rightarrow> bool \<Rightarrow> 'm
     \<Rightarrow> error + (cell list list \<times> cell list \<times> 'm)" where
  "read_space_delimited fs na_values filename skiprows class_labels metadata =
     (case fs filename of
        None \<Rightarrow> Inl FileNotFoundError
      | Some content \<Rightarrow>
          (case read_csv na_values (universal_newlines content) skiprows of
             Inl e \<Rightarrow> Inl e
           | Inr df \<Rightarrow>
               if class_labels then
                 (if ncols df = 0 then Inl IndexError
                  else Inr (map (take (ncols df - 1)) (rows df),
                            map (\<lambda>r. r ! (ncols df - 1)) (rows df),
                            metadata))
               else Inr (rows df, np_zeros (length (rows df)), metadata)))"

section \<open>\<^verbatim>\<open>process_lvq_pak\<close>\<close>

text \<open>
  The dictionary a processing function returns has string keys and values of four kinds.
\<close>

datatype ('d, 't, 'm) dsval = DatasetName string | Metadata 'm | Data 'd | Target 't

definition dset_opts :: "string \<Rightarrow> 'm \<Rightarrow> 'd \<Rightarrow> 't \<Rightarrow> (string \<rightharpoonup> ('d, 't, 'm) dsval)" where
  "dset_opts dataset_name metadata data target =
     [''dataset_name'' \<mapsto> DatasetName dataset_name,
      ''metadata'' \<mapsto> Metadata metadata,
      ''data'' \<mapsto> Data data,
      ''target'' \<mapsto> Target target]"

text \<open>
  \<^verbatim>\<open>np.vstack\<close> stacks two two-dimensional arrays row-wise and raises
  \<^verbatim>\<open>ValueError\<close> when their numbers of columns differ; \<^verbatim>\<open>np.append\<close> joins two
  vectors. An array that comes from a frame has at least one row, so its number of columns
  is the length of its first row.
\<close>

definition array_ncols :: "cell list list \<Rightarrow> nat" where
  "array_ncols a = (case a of [] \<Rightarrow> 0 | r # _ \<Rightarrow> length r)"

definition np_vstack :: "cell list list \<Rightarrow> cell list list \<Rightarrow> error + cell list list" where
  "np_vstack a b = (if array_ncols a = array_ncols b then Inr (a @ b) else Inl ValueError)"

definition np_append :: "cell list \<Rightarrow> cell list \<Rightarrow> cell list" where
  "np_append a b = a @ b"

text \<open>
  A \<open>metadata\<close> argument is a dictionary or \<^verbatim>\<open>None\<close>. The body of
  \<^verbatim>\<open>process_lvq_pak\<close> calls whatever the global name \<^verbatim>\<open>read_space_delimited\<close> is bound
  to, with \<^verbatim>\<open>class_labels\<close> left at its default; \<open>process_lvq_pak_with\<close> takes that
  function as its argument \<open>reader\<close>, and \<open>process_lvq_pak\<close> is the body run with the
  notebook's own \<^const>\<open>read_space_delimited\<close>. \<open>interim_data_path\<close> comes from
  \<^verbatim>\<open>src.paths\<close> and is a parameter.
\<close>

type_synonym 'v metadata = "(string \<rightharpoonup> 'v) option"

definition process_lvq_pak_with ::
  "(path \<Rightarrow> nat list option \<Rightarrow> 'v metadata \<Rightarrow> error + (cell list list \<times> cell list \<times> 'v metadata))
     \<Rightarrow> path \<Rightarrow> string \<Rightarrow> 'v metadata \<Rightarrow> string
     \<Rightarrow> error + (string \<rightharpoonup> (cell list list, cell list, 'v metadata) dsval)" where
  "process_lvq_pak_with reader interim_data_path dataset_name metadata kind =
     (let metadata = (if metadata = None then Some Map.empty else metadata);
          untar_dir = interim_data_path @ [dataset_name];
          unpack_dir = untar_dir @ [''lvq_pak-3.1'']
      in
        if kind = ''train'' then
          (case reader (unpack_dir @ [''ex1.dat'']) (Some [0, 1]) metadata of
             Inl e \<Rightarrow> Inl e
           | Inr (data, target, metadata) \<Rightarrow> Inr (dset_opts dataset_name metadata data target))
        else if kind = ''test'' then
          (case reader (unpack_dir @ [''ex2.dat'']) (Some [0]) metadata of
             Inl e \<Rightarrow> Inl e
           | Inr (data, target, metadata) \<Rightarrow> Inr (dset_opts dataset_name metadata data target))
        else if kind = ''all'' then
          (case reader (unpack_dir @ [''ex1.dat'']) (Some [0, 1]) metadata of
             Inl e \<Rightarrow> Inl e
           | Inr (data1, target1, metadata) \<Rightarrow>
               (case reader (unpack_dir @ [''ex2.dat'']) (Some [0]) metadata of
                  Inl e \<Rightarrow> Inl e
                | Inr (data2, target2, metadata) \<Rightarrow>
                    (case np_vstack data1 data2 of
                       Inl e \<Rightarrow> Inl e
                     | Inr data \<Rightarrow>
                         Inr (dset_opts dataset_name metadata data (np_append target1 target2)))))
        else Inl (Exception (''Unknown kind: '' @ kind)))"

definition process_lvq_pak ::
  "(path \<rightharpoonup> string) \<Rightarrow> string list \<Rightarrow> path \<Rightarrow> string \<Rightarrow> 'v metadata \<Rightarrow> string
     \<Rightarrow> error + (string \<rightharpoonup> (cell list list, cell list, 'v metadata) dsval)" where
  "process_lvq_pak fs na_values =
     process_lvq_pak_with
       (\<lambda>filename skiprows metadata. read_space_delimited fs na_values filename skiprows True metadata)"

section \<open>\<^verbatim>\<open>process_raw_data\<close>\<close>

text \<open>
  The template binds the name \<^verbatim>\<open>extract_function\<close> in its body (by the nested
  \<^verbatim>\<open>def\<close>), so the name is a local variable of the function, unbound until that
  \<^verbatim>\<open>def\<close> runs, and reading an unbound local raises \<^verbatim>\<open>UnboundLocalError\<close>. The
  parameter is called \<^verbatim>\<open>extract_func\<close>; calling it when it is \<^verbatim>\<open>None\<close> raises
  \<^verbatim>\<open>TypeError\<close>.

  \<open>process_raw_data_body\<close> is the body of the function run with a given state of the local
  name \<^verbatim>\<open>extract_function\<close> at the moment the guard reads it. A call of the function runs
  the body with the name unbound, and that is \<open>process_raw_data\<close>; with the name bound the
  body goes on to what its remaining lines say: it calls \<^verbatim>\<open>extract_func\<close> and builds the
  dictionary.
\<close>

datatype 'a local_var = Unbound | Bound 'a

definition load_local :: "string \<Rightarrow> 'a local_var \<Rightarrow> error + 'a" where
  "load_local name v = (case v of Unbound \<Rightarrow> Inl (UnboundLocalError name) | Bound x \<Rightarrow> Inr x)"

definition process_raw_data_body ::
  "('kw \<Rightarrow> 'd option \<times> 't option \<times> 'v metadata) option local_var
     \<Rightarrow> string \<Rightarrow> 'v metadata
     \<Rightarrow> ('v metadata \<Rightarrow> 'kw \<Rightarrow> error + ('d option \<times> 't option \<times> 'v metadata)) option
     \<Rightarrow> 'kw \<Rightarrow> error + (string \<rightharpoonup> ('d option, 't option, 'v metadata) dsval)" where
  "process_raw_data_body extract_function dataset_name metadata extract_func kwargs =
     (let metadata = (if metadata = None then Some Map.empty else metadata);
          data = None;
          target = None
      in
        case load_local ''extract_function'' extract_function of
          Inl e \<Rightarrow> Inl e
        | Inr v \<Rightarrow>
            (let extract_function =
                   (if v = None then Bound (Some (\<lambda>kw. (data, target, metadata))) else Bound v)
             in case extract_func of
                  None \<Rightarrow> Inl TypeError
                | Some f \<Rightarrow>
                    (case f metadata kwargs of
                       Inl e \<Rightarrow> Inl e
                     | Inr (data, target, metadata) \<Rightarrow>
                         Inr (dset_opts dataset_name metadata data target))))"

definition process_raw_data ::
  "string \<Rightarrow> 'v metadata
     \<Rightarrow> ('v metadata \<Rightarrow> 'kw \<Rightarrow> error + ('d option \<times> 't option \<times> 'v metadata)) option
     \<Rightarrow> 'kw \<Rightarrow> error + (string \<rightharpoonup> ('d option, 't option, 'v metadata) dsval)" where
  "process_raw_data =
     process_raw_data_body
       (Unbound :: ('kw \<Rightarrow> 'd option \<times> 't option \<times> 'v metadata) option local_var)"

section \<open>Auxiliary notions\<close>

text \<open>
  No row among those read so far is without a field.
\<close>

definition rows_ok :: "string list list list \<Rightarrow> string list list \<Rightarrow> bool" where
  "rows_ok C L \<longleftrightarrow> [] \<notin> set (concat C @ L)"

section \<open>Lines and fields of a text\<close>

text \<open>
  The lines of a text are its pieces between newlines; a newline at the very end opens no
  further line. The fields of a line are its pieces between spaces: every single space
  separates two fields, so a line always has one field more than it has spaces. A line is
  blank for the tokenizer when it is empty or holds nothing but tabs.
\<close>

fun lines_of :: "string \<Rightarrow> string list" where
  "lines_of [] = []"
| "lines_of (c # cs) =
     (if c = LF then [] # lines_of cs
      else (case lines_of cs of [] \<Rightarrow> [[c]] | l # ls \<Rightarrow> (c # l) # ls))"

fun fields_of :: "string \<Rightarrow> string list" where
  "fields_of [] = [[]]"
| "fields_of (c # cs) =
     (if c = SP then [] # fields_of cs
      else (case fields_of cs of [] \<Rightarrow> [[c]] | f # fs \<Rightarrow> (c # f) # fs))"

definition blank_line :: "string \<Rightarrow> bool" where
  "blank_line l \<longleftrightarrow> set l \<subseteq> {TAB}"

text \<open>
  The lines that are kept: line \<open>n\<close> (counted from the given number, the first line of a
  file being line 0) is dropped when \<open>n\<close> is listed in \<open>skiprows\<close> or the line is blank.
\<close>

fun kept_from :: "nat list \<Rightarrow> nat \<Rightarrow> string list \<Rightarrow> string list" where
  "kept_from skipset n [] = []"
| "kept_from skipset n (l # ls) =
     (if n \<in> set skipset \<or> blank_line l then kept_from skipset (Suc n) ls
      else l # kept_from skipset (Suc n) ls)"

definition kept_lines :: "nat list \<Rightarrow> string \<Rightarrow> string list" where
  "kept_lines skipset text = kept_from skipset 0 (lines_of text)"

text \<open>
  The text of a file as the tokenizer takes it: read with newlines translated, and without
  a byte-order mark at its start. The rows of a file are the kept lines of that text, each
  as the list of its fields.
\<close>

definition csv_text :: "string \<Rightarrow> string" where
  "csv_text content = check_for_bom (universal_newlines content)"

definition file_rows :: "nat list option \<Rightarrow> string \<Rightarrow> string list list" where
  "file_rows skiprows content =
     map fields_of (kept_lines (skip_list skiprows) (csv_text content))"

text \<open>
  Rows of fields handed to the reader one after the other, and the rows it then holds.
\<close>

fun push_rows ::
  "string list list list \<Rightarrow> string list list \<Rightarrow> string list list
     \<Rightarrow> error + (string list list list \<times> string list list)" where
  "push_rows C L [] = Inr (C, L)"
| "push_rows C L (r # rs) =
     (case push_row C L r of Inl e \<Rightarrow> Inl e | Inr (C', L') \<Rightarrow> push_rows C' L' rs)"

definition read_rows :: "string list list \<Rightarrow> error + string list list" where
  "read_rows rs =
     (case push_rows [] [] rs of Inl e \<Rightarrow> Inl e | Inr (C, L) \<Rightarrow> Inr (concat C @ L))"

text \<open>
  The tokenizer run from a given state to the end of the text, and the state at the start
  of a record with nothing pending.
\<close>

definition blocks_result ::
  "error + parser \<Rightarrow> error + (string list list list \<times> string list list)" where
  "blocks_result r = (case r of Inl e \<Rightarrow> Inl e | Inr q \<Rightarrow> Inr (chunks q, lines q))"

definition finish_all ::
  "nat list \<Rightarrow> parser \<Rightarrow> string \<Rightarrow> error + (string list list list \<times> string list list)" where
  "finish_all skipset p text =
     (case tokenize_bytes skipset p text of
        Inl e \<Rightarrow> Inl e
      | Inr q \<Rightarrow> blocks_result (parser_handle_eof q))"

definition at_record_start :: "parser \<Rightarrow> bool" where
  "at_record_start p \<longleftrightarrow> state p = START_RECORD \<and> word p = [] \<and> line p = [] \<and> ws p = []"

definition unquoted :: "parser \<Rightarrow> bool" where
  "unquoted p \<longleftrightarrow>
     state p \<in> {START_RECORD, START_FIELD, IN_FIELD, WHITESPACE_LINE,
                 START_FIELD_IN_SKIP_LINE, IN_FIELD_IN_SKIP_LINE} \<and> QUOTE \<notin> set (ws p)"

definition glue :: "string \<Rightarrow> string list \<Rightarrow> string list" where
  "glue w fs = (case fs of [] \<Rightarrow> [w] | f # fs' \<Rightarrow> (w @ f) # fs')"

text \<open>
  The fields of a line as the specification words them, for comparison: the maximal runs
  of characters that are not white space.
\<close>

definition is_whitespace :: "char \<Rightarrow> bool" where
  "is_whitespace c \<longleftrightarrow> c = SP \<or> c = TAB \<or> c = LF \<or> c = CR \<or> c = CHR 0x0B \<or> c = CHR 0x0C"

fun spec_fields_of :: "string \<Rightarrow> string list" where
  "spec_fields_of [] = []"
| "spec_fields_of (c # cs) =
     (if is_whitespace c then spec_fields_of cs
      else (case cs of
              [] \<Rightarrow> [[c]]
            | d # _ \<Rightarrow>
                if is_whitespace d then [c] # spec_fields_of cs
                else (case spec_fields_of cs of [] \<Rightarrow> [[c]] | f # fs \<Rightarrow> (c # f) # fs)))"

section \<open>Sample files\<close>

text \<open>
  Two small files in the layout of \<^verbatim>\<open>ex1.dat\<close> (a count line, a comment line, then
  rows whose last field is the label, one of them the label \<^verbatim>\<open>#\<close>) and of
  \<^verbatim>\<open>ex2.dat\<close> (a count line, then rows), a variant of the second with one column less,
  a file system holding them where \<^verbatim>\<open>process_lvq_pak\<close> looks for them, and the
  library's table of missing-value markers.
\<close>

definition sample_na :: "string list" where
  "sample_na = ['''', ''#N/A'', ''#N/A N/A'', ''#NA'', ''-1.#IND'', ''-1.#QNAN'', ''-NaN'', ''-nan'',
                ''1.#IND'', ''1.#QNAN'', ''<NA>'', ''N/A'', ''NA'', ''NULL'', ''NaN'', ''None'',
                ''n/a'', ''nan'', ''null'']"

definition sample_ex1 :: string where
  "sample_ex1 = ''2'' @ [LF] @ ''# sample'' @ [LF] @ ''1.5 2.5 A'' @ [LF] @ ''0.5 1.0 #'' @ [LF]"

definition sample_ex2 :: string where
  "sample_ex2 = ''2'' @ [LF] @ ''3.0 4.0 B'' @ [LF]"

definition sample_ex2_narrow :: string where
  "sample_ex2_narrow = ''1'' @ [LF] @ ''3.0 B'' @ [LF]"

definition sample_dir :: path where
  "sample_dir = [''data'', ''interim'']"

definition sample_fs :: "string \<Rightarrow> (path \<rightharpoonup> string)" where
  "sample_fs ex2 =
     [sample_dir @ [''lvq-pak'', ''lvq_pak-3.1'', ''ex1.dat''] \<mapsto> sample_ex1,
      sample_dir @ [''lvq-pak'', ''lvq_pak-3.1'', ''ex2.dat''] \<mapsto> ex2]"

text \<open>
  Further sample texts: a row with two spaces in a row, a file whose second row is shorter
  than the first, one whose second row is longer, and a file in the layout of
  \<^verbatim>\<open>ex1.dat\<close> with a quoted field that runs over two lines.
\<close>

definition sample_two_spaces :: string where
  "sample_two_spaces = ''a  b'' @ [LF]"

definition sample_short_row :: string where
  "sample_short_row = ''a b c'' @ [LF] @ ''d e'' @ [LF]"

definition sample_long_row :: string where
  "sample_long_row = ''a b'' @ [LF] @ ''c d e'' @ [LF]"

definition sample_quoted_newline :: string where
  "sample_quoted_newline =
     ''2'' @ [LF] @ ''# c'' @ [LF] @ [QUOTE] @ ''a'' @ [LF] @ ''b'' @ [QUOTE] @ '' x'' @ [LF]"

definition sample_blank_lines :: string where
  "sample_blank_lines =
     ''2'' @ [LF] @ ''# c'' @ [LF] @ ''1 2 A'' @ [LF, LF, TAB, LF] @ ''3 4 B'' @ [LF]"

definition one_file :: "string \<Rightarrow> (path \<rightharpoonup> string)" where
  "one_file content = [[''sample.dat''] \<mapsto> content]"

text \<open>
  Files with a field \<^verbatim>\<open>#\<close> at the end of a row: one whose second row is shorter than
  the first, one whose second row opens with a quoted field that holds a space, and one
  whose second row is longer than the first.
\<close>

definition sample_hash_short_row :: string where
  "sample_hash_short_row = ''1 2 a'' @ [LF] @ ''3 #'' @ [LF]"

definition sample_hash_quoted :: string where
  "sample_hash_quoted = ''a b c'' @ [LF] @ [QUOTE] @ ''x y'' @ [QUOTE] @ '' #'' @ [LF]"

definition sample_hash_long_row :: string where
  "sample_hash_long_row = ''1 2'' @ [LF] @ ''3 4 #'' @ [LF]"

text \<open>
  Files whose rows all have the same number of fields: one with the label \<^verbatim>\<open>NA\<close>, one
  with a NUL byte in a label, one with a label in double quotes, and one that starts with
  a byte-order mark.
\<close>

definition sample_na_label :: string where
  "sample_na_label = ''1 2 NA'' @ [LF] @ ''3 4 B'' @ [LF]"

definition sample_nul_label :: string where
  "sample_nul_label = ''1 2 a'' @ [NUL] @ ''b'' @ [LF]"

definition sample_quoted_label :: string where
  "sample_quoted_label = ''1 2 '' @ [QUOTE] @ ''a'' @ [QUOTE] @ [LF]"

definition sample_bom :: string where
  "sample_bom = BOM @ ''1 2 a'' @ [LF]"

text \<open>A file whose lines end in a carriage return and newline, or in a carriage return.\<close>

definition sample_crlf :: string where
  "sample_crlf = ''1 2 a'' @ [CR, LF] @ ''3 4 b'' @ [CR]"

text \<open>
  A row with a quoted field that holds a space, a row with a tab, and a file whose second
  row has such a quoted field.
\<close>

definition sample_quoted_field :: string where
  "sample_quoted_field = [QUOTE] @ ''a b'' @ [QUOTE] @ '' c'' @ [LF]"

definition sample_tab :: string where
  "sample_tab = ''a'' @ [TAB] @ ''b'' @ [LF]"

definition sample_quoted_long :: string where
  "sample_quoted_long = ''a b'' @ [LF] @ [QUOTE] @ ''c d'' @ [QUOTE] @ '' e'' @ [LF]"

text \<open>
  Files of more rows than the reader takes in one block: as many rows \<^verbatim>\<open>a b\<close> as a block
  of a table of two columns holds, followed by a row of three fields, or by a row of one
  field and a row of two.
\<close>

definition sample_block :: string where
  "sample_block = concat (replicate (nat (buffer_lines 2)) (''a b'' @ [LF]))"

definition sample_block_then_long :: string where
  "sample_block_then_long = sample_block @ ''c d e'' @ [LF]"

definition sample_block_short_full :: string where
  "sample_block_short_full = sample_block @ ''c'' @ [LF] @ ''d e'' @ [LF]"


section \<open>Properties of the tokenizer\<close>

lemma grow_buffer_lines_pos: "0 < b \<Longrightarrow> 0 < grow_buffer_lines h b"
proof (induction h b rule: grow_buffer_lines.induct)
  case (1 heuristic b)
  then show ?case by (subst grow_buffer_lines.simps) simp
qed

lemma buffer_lines_pos: "0 < buffer_lines w"
  by (simp add: buffer_lines_def grow_buffer_lines_pos)

lemma push_row_err: "push_row C L r = Inl e \<Longrightarrow> e = ParserError"
  by (auto simp: push_row_def Let_def split: if_splits)

lemma push_row_ok:
  assumes "rows_ok C L" "r \<noteq> []" "push_row C L r = Inr (C', L')"
  shows "rows_ok C' L'"
  using assms by (auto simp: push_row_def rows_ok_def Let_def split: if_splits)

lemma end_line_ok:
  assumes "rows_ok (chunks p) (lines p)" "in_skip_line (state p) \<or> line p \<noteq> []"
    "end_line p = Inr p'"
  shows "rows_ok (chunks p') (lines p')"
proof (cases "in_skip_line (state p)")
  case True
  then show ?thesis using assms by (auto simp: end_line_def)
next
  case False
  then have ne: "line p \<noteq> []" using assms by simp
  from assms(3) False obtain C L where
    pr: "push_row (chunks p) (lines p) (line p) = Inr (C, L)" and
    p': "chunks p' = C" "lines p' = L"
    by (auto simp: end_line_def split: sum.splits prod.splits)
  from push_row_ok[OF assms(1) ne pr] show ?thesis using p' by simp
qed

lemma end_line_err: "end_line p = Inl e \<Longrightarrow> e = ParserError"
  by (auto simp: end_line_def split: if_splits sum.splits dest: push_row_err)

lemma field_step_ok:
  assumes "rows_ok (chunks p) (lines p)" "field_step p c = Inr p'"
  shows "rows_ok (chunks p') (lines p')"
  using assms
  by (cases "state p")
     (auto simp: field_step_def end_field_def push_char_def split: if_splits
           intro: end_line_ok[where p="p\<lparr>line := line p @ [word p], word := []\<rparr>"])

lemma field_step_err: "field_step p c = Inl e \<Longrightarrow> e = ParserError"
  by (cases "state p") (auto simp: field_step_def split: if_splits dest: end_line_err)

lemma field_steps_ok:
  "rows_ok (chunks p) (lines p) \<Longrightarrow> field_steps p cs = Inr p' \<Longrightarrow> rows_ok (chunks p') (lines p')"
  by (induction cs arbitrary: p) (auto split: sum.splits dest: field_step_ok)

lemma field_steps_err: "field_steps p cs = Inl e \<Longrightarrow> e = ParserError"
  by (induction cs arbitrary: p) (auto split: sum.splits dest: field_step_err)

lemma step_ok:
  assumes "rows_ok (chunks p) (lines p)" "step skipset p c = Inr p'"
  shows "rows_ok (chunks p') (lines p')"
proof (cases "state p")
  case START_RECORD
  show ?thesis
  proof (cases "file_lines p \<in> set skipset")
    case True
    then show ?thesis using assms START_RECORD
      by (auto simp: step_def end_line_def in_skip_line_def split: if_splits)
  next
    case False
    then show ?thesis using assms START_RECORD
      by (auto simp: step_def split: if_splits
               dest: field_step_ok[where p="p\<lparr>state := START_FIELD\<rparr>", simplified])
  qed
next
  case WHITESPACE_LINE
  then show ?thesis using assms
    by (auto simp: step_def split: if_splits
             dest: field_steps_ok[where p="p\<lparr>state := START_FIELD, ws := []\<rparr>", simplified])
next
  case START_FIELD_IN_SKIP_LINE
  then show ?thesis using assms
    by (auto simp: step_def end_line_def in_skip_line_def split: if_splits)
next
  case IN_FIELD_IN_SKIP_LINE
  then show ?thesis using assms
    by (auto simp: step_def end_line_def in_skip_line_def split: if_splits)
next
  case IN_QUOTED_FIELD_IN_SKIP_LINE
  then show ?thesis using assms
    by (auto simp: step_def split: if_splits)
next
  case QUOTE_IN_QUOTED_FIELD_IN_SKIP_LINE
  then show ?thesis using assms
    by (auto simp: step_def end_line_def in_skip_line_def split: if_splits)
qed (use assms in \<open>auto simp: step_def dest: field_step_ok\<close>)

lemma step_err: "step skipset p c = Inl e \<Longrightarrow> e = ParserError"
  by (cases "state p")
     (auto simp: step_def split: if_splits dest: end_line_err field_step_err field_steps_err)

lemma tokenize_bytes_ok:
  "rows_ok (chunks p) (lines p) \<Longrightarrow> tokenize_bytes skipset p cs = Inr p'
     \<Longrightarrow> rows_ok (chunks p') (lines p')"
proof (induction cs arbitrary: p)
  case Nil
  then show ?case by simp
next
  case (Cons c cs)
  from Cons.prems(2) obtain q where q: "step skipset p c = Inr q" "tokenize_bytes skipset q cs = Inr p'"
    by (auto split: sum.splits)
  from Cons.prems(1) q(1) have "rows_ok (chunks q) (lines q)" by (rule step_ok)
  then show ?case using q(2) by (rule Cons.IH)
qed

lemma tokenize_bytes_err: "tokenize_bytes skipset p cs = Inl e \<Longrightarrow> e = ParserError"
proof (induction cs arbitrary: p)
  case Nil
  then show ?case by simp
next
  case (Cons c cs)
  show ?case
  proof (cases "step skipset p c")
    case (Inl e')
    then show ?thesis using Cons.prems step_err by simp
  next
    case (Inr q)
    then show ?thesis using Cons by simp
  qed
qed

lemma parser_handle_eof_ok:
  assumes "rows_ok (chunks p) (lines p)" "parser_handle_eof p = Inr p'"
  shows "rows_ok (chunks p') (lines p')"
  using assms
  by (cases "state p")
     (auto simp: parser_handle_eof_def end_field_def in_skip_line_def
           intro: end_line_ok[where p="p\<lparr>line := line p @ [word p], word := []\<rparr>"]
                  end_line_ok[where p=p])

lemma parser_handle_eof_err: "parser_handle_eof p = Inl e \<Longrightarrow> e = ParserError"
  by (cases "state p") (auto simp: parser_handle_eof_def dest: end_line_err)

lemma tokenize_all_rows_ok:
  assumes "tokenize_all_rows skipset text = Inr L"
  shows "[] \<notin> set L"
proof -
  from assms obtain p p' where
    1: "tokenize_bytes skipset parser_init (check_for_bom text) = Inr p" and
    2: "parser_handle_eof p = Inr p'" and 3: "L = concat (chunks p') @ lines p'"
    unfolding tokenize_all_rows_def by (auto split: sum.splits)
  have "rows_ok (chunks parser_init) (lines parser_init)"
    by (simp add: parser_init_def rows_ok_def)
  then have "rows_ok (chunks p) (lines p)" using 1 by (rule tokenize_bytes_ok)
  then have "rows_ok (chunks p') (lines p')" using 2 by (rule parser_handle_eof_ok)
  then show ?thesis using 3 by (simp add: rows_ok_def)
qed

lemma tokenize_all_rows_err: "tokenize_all_rows skipset text = Inl e \<Longrightarrow> e = ParserError"
  unfolding tokenize_all_rows_def
  by (auto split: sum.splits dest: tokenize_bytes_err parser_handle_eof_err)

lemma length_convert_row [simp]: "length (convert_row na w r) = w"
  by (simp add: convert_row_def pad_to_def)

lemma read_csv_frame:
  assumes "read_csv na text skiprows = Inr df"
  shows "rows df \<noteq> [] \<and> 0 < ncols df \<and> (\<forall>r \<in> set (rows df). length r = ncols df)"
proof -
  from assms obtain L r0 where
    L: "tokenize_all_rows (skip_list skiprows) text = Inr L" and
    ne: "L = r0 # tl L" and df: "df = \<lparr>ncols = length r0, rows = map (convert_row na (length r0)) L\<rparr>"
    unfolding read_csv_def by (auto split: sum.splits list.splits)
  have r: "[] \<notin> set L" using L by (rule tokenize_all_rows_ok)
  have "r0 \<in> set L" using ne by (metis list.set_intros(1))
  then have "r0 \<noteq> []" using r by auto
  moreover have "L \<noteq> []" using ne by auto
  ultimately show ?thesis by (simp add: df)
qed

lemma read_csv_err: "read_csv na text skiprows = Inl e \<Longrightarrow> e = ParserError \<or> e = EmptyDataError"
  unfolding read_csv_def by (auto split: sum.splits list.splits dest: tokenize_all_rows_err)

lemma read_space_delimited_err:
  "read_space_delimited fs na f skiprows cl md = Inl e \<Longrightarrow>
     e = FileNotFoundError \<or> e = ParserError \<or> e = EmptyDataError"
  unfolding read_space_delimited_def
  by (auto split: option.splits sum.splits if_splits dest: read_csv_err read_csv_frame)

section \<open>The sample files, parsed\<close>

lemma sample_ex1_csv:
  "read_csv sample_na (universal_newlines sample_ex1) (Some [0, 1]) =
     Inr \<lparr>ncols = 3, rows = [[Str ''1.5'', Str ''2.5'', Str ''A''], [Str ''0.5'', Str ''1.0'', Str ''#'']]\<rparr>"
  by code_simp

lemma sample_ex2_csv:
  "read_csv sample_na (universal_newlines sample_ex2) (Some [0]) =
     Inr \<lparr>ncols = 3, rows = [[Str ''3.0'', Str ''4.0'', Str ''B'']]\<rparr>"
  by code_simp

lemma sample_ex2_narrow_csv:
  "read_csv sample_na (universal_newlines sample_ex2_narrow) (Some [0]) =
     Inr \<lparr>ncols = 2, rows = [[Str ''3.0'', Str ''B'']]\<rparr>"
  by code_simp

lemma sample_train:
  "read_space_delimited (sample_fs ex2) sample_na
      (sample_dir @ [''lvq-pak'', ''lvq_pak-3.1'', ''ex1.dat'']) (Some [0, 1]) True md
   = Inr ([[Str ''1.5'', Str ''2.5''], [Str ''0.5'', Str ''1.0'']], [Str ''A'', Str ''#''], md)"
  by (simp add: read_space_delimited_def sample_fs_def sample_dir_def sample_ex1_csv del: One_nat_def)

lemma sample_test:
  "read_space_delimited (sample_fs sample_ex2) sample_na
      (sample_dir @ [''lvq-pak'', ''lvq_pak-3.1'', ''ex2.dat'']) (Some [0]) True md
   = Inr ([[Str ''3.0'', Str ''4.0'']], [Str ''B''], md)"
  by (simp add: read_space_delimited_def sample_fs_def sample_dir_def sample_ex2_csv)

lemma sample_test_narrow:
  "read_space_delimited (sample_fs sample_ex2_narrow) sample_na
      (sample_dir @ [''lvq-pak'', ''lvq_pak-3.1'', ''ex2.dat'']) (Some [0]) True md
   = Inr ([[Str ''3.0'']], [Str ''B''], md)"
  by (simp add: read_space_delimited_def sample_fs_def sample_dir_def sample_ex2_narrow_csv)

section \<open>The template \<^verbatim>\<open>process_raw_data\<close>\<close>

text \<open>
  Claim C9. Every call of \<^verbatim>\<open>process_raw_data\<close>, with \<^verbatim>\<open>extract_func\<close> omitted or given,
  evaluates the guard \<^verbatim>\<open>extract_function is None\<close> while the local name
  \<^verbatim>\<open>extract_function\<close> is unbound, and so fails with an unbound-name error instead of
  returning a result.
\<close>

theorem process_raw_data_unbound:
  "process_raw_data dataset_name metadata None kwargs = Inl (UnboundLocalError ''extract_function'')
   \<and> process_raw_data dataset_name metadata (Some f) kwargs = Inl (UnboundLocalError ''extract_function'')"
  by (simp add: process_raw_data_def process_raw_data_body_def Let_def load_local_def)

section \<open>Errors and results of \<^verbatim>\<open>process_lvq_pak\<close>\<close>

lemma np_vstack_err: "np_vstack a b = Inl e \<Longrightarrow> e = ValueError"
  by (simp add: np_vstack_def split: if_splits)

lemma process_lvq_pak_with_err:
  assumes "process_lvq_pak_with reader idp name md kind = Inl e"
    and "kind \<in> {''train'', ''test'', ''all''}"
  shows "(\<exists>f s m. reader f s m = Inl e) \<or> e = ValueError"
  using assms unfolding process_lvq_pak_with_def Let_def
  by (auto split: if_splits sum.splits prod.splits dest: np_vstack_err)

lemma process_lvq_pak_err:
  assumes "process_lvq_pak fs na idp name md kind = Inl e"
    and "kind \<in> {''train'', ''test'', ''all''}"
  shows "e = FileNotFoundError \<or> e = ParserError \<or> e = EmptyDataError \<or> e = ValueError"
  using process_lvq_pak_with_err[OF assms[unfolded process_lvq_pak_def]]
  by (auto dest: read_space_delimited_err)

text \<open>
  Claim C5. For every \<open>kind\<close> other than \<^verbatim>\<open>'train'\<close>, \<^verbatim>\<open>'test'\<close> and \<^verbatim>\<open>'all'\<close>,
  \<^verbatim>\<open>process_lvq_pak\<close> fails with the unknown-kind error (the notebook raises the builtin
  \<^verbatim>\<open>Exception\<close> with the message \<^verbatim>\<open>Unknown kind: \<close> followed by the kind); for the
  three kinds it never raises that error, whatever the files hold.
\<close>

theorem process_lvq_pak_kind:
  "(kind \<notin> {''train'', ''test'', ''all''} \<longrightarrow>
      process_lvq_pak fs na idp name md kind = Inl (Exception (''Unknown kind: '' @ kind)))
   \<and> (kind \<in> {''train'', ''test'', ''all''} \<longrightarrow>
      (\<forall>msg. process_lvq_pak fs na idp name md kind \<noteq> Inl (Exception msg)))"
proof (intro conjI impI allI)
  assume "kind \<notin> {''train'', ''test'', ''all''}"
  then show "process_lvq_pak fs na idp name md kind = Inl (Exception (''Unknown kind: '' @ kind))"
    by (simp add: process_lvq_pak_def process_lvq_pak_with_def)
next
  fix msg assume k: "kind \<in> {''train'', ''test'', ''all''}"
  show "process_lvq_pak fs na idp name md kind \<noteq> Inl (Exception msg)"
  proof
    assume "process_lvq_pak fs na idp name md kind = Inl (Exception msg)"
    from process_lvq_pak_err[OF this k] show False by simp
  qed
qed

theorem process_lvq_pak_kind_witness:
  "''bogus'' \<notin> {''train'', ''test'', ''all''}
   \<and> process_lvq_pak (sample_fs sample_ex2) sample_na sample_dir ''lvq-pak'' (None :: nat metadata) ''bogus''
       = Inl (Exception ''Unknown kind: bogus'')
   \<and> ''train'' \<in> {''train'', ''test'', ''all''}
   \<and> process_lvq_pak (sample_fs sample_ex2) sample_na sample_dir ''lvq-pak'' (None :: nat metadata) ''train''
       \<noteq> Inl (Exception ''Unknown kind: train'')"
  using process_lvq_pak_kind [of "''bogus''" "sample_fs sample_ex2" sample_na sample_dir "''lvq-pak''" "None :: nat metadata"]
        process_lvq_pak_kind [of "''train''" "sample_fs sample_ex2" sample_na sample_dir "''lvq-pak''" "None :: nat metadata"]
  by simp



lemma dset_opts_lookup:
  "dset_opts n m d t ''dataset_name'' = Some (DatasetName n)"
  "dset_opts n m d t ''metadata'' = Some (Metadata m)"
  "dset_opts n m d t ''data'' = Some (Data d)"
  "dset_opts n m d t ''target'' = Some (Target t)"
  by (simp_all add: dset_opts_def)

lemma dset_opts_inject:
  assumes "dset_opts n m d t = dset_opts n' m' d' t'"
  shows "n = n' \<and> m = m' \<and> d = d' \<and> t = t'"
proof -
  have "dset_opts n m d t k = dset_opts n' m' d' t' k" for k using assms by simp
  from this[of "''dataset_name''"] this[of "''metadata''"] this[of "''data''"] this[of "''target''"]
  show ?thesis by (simp add: dset_opts_lookup)
qed




lemma sample_process_train:
  "process_lvq_pak (sample_fs ex2) sample_na sample_dir ''lvq-pak'' (None :: nat metadata) ''train''
   = Inr (dset_opts ''lvq-pak'' (Some Map.empty)
            [[Str ''1.5'', Str ''2.5''], [Str ''0.5'', Str ''1.0'']] [Str ''A'', Str ''#''])"
  using sample_train [of ex2 "Some Map.empty :: nat metadata"]
  by (simp add: process_lvq_pak_def process_lvq_pak_with_def sample_dir_def del: One_nat_def)





lemma sample_process_test:
  "process_lvq_pak (sample_fs sample_ex2) sample_na sample_dir ''lvq-pak'' (None :: nat metadata) ''test''
   = Inr (dset_opts ''lvq-pak'' (Some Map.empty) [[Str ''3.0'', Str ''4.0'']] [Str ''B''])"
  using sample_test [of "Some Map.empty :: nat metadata"]
  by (simp add: process_lvq_pak_def process_lvq_pak_with_def sample_dir_def del: One_nat_def)

lemma sample_process_test_narrow:
  "process_lvq_pak (sample_fs sample_ex2_narrow) sample_na sample_dir ''lvq-pak'' (None :: nat metadata) ''test''
   = Inr (dset_opts ''lvq-pak'' (Some Map.empty) [[Str ''3.0'']] [Str ''B''])"
  using sample_test_narrow [of "Some Map.empty :: nat metadata"]
  by (simp add: process_lvq_pak_def process_lvq_pak_with_def sample_dir_def del: One_nat_def)

text \<open>
  Claim C8 as stated fails: both sample files parse, with two and with one data column,
  and \<^verbatim>\<open>kind='all'\<close> ends in the \<^verbatim>\<open>ValueError\<close> of \<^verbatim>\<open>np.vstack\<close> instead of
  returning the concatenation.
\<close>

theorem lvq_all_width_mismatch_counterexample:
  "process_lvq_pak (sample_fs sample_ex2_narrow) sample_na sample_dir ''lvq-pak'' (None :: nat metadata) ''train''
     = Inr (dset_opts ''lvq-pak'' (Some Map.empty)
              [[Str ''1.5'', Str ''2.5''], [Str ''0.5'', Str ''1.0'']] [Str ''A'', Str ''#''])
   \<and> process_lvq_pak (sample_fs sample_ex2_narrow) sample_na sample_dir ''lvq-pak'' (None :: nat metadata) ''test''
     = Inr (dset_opts ''lvq-pak'' (Some Map.empty) [[Str ''3.0'']] [Str ''B''])
   \<and> process_lvq_pak (sample_fs sample_ex2_narrow) sample_na sample_dir ''lvq-pak'' (None :: nat metadata) ''all''
     = Inl ValueError"
proof (intro conjI)
  show "process_lvq_pak (sample_fs sample_ex2_narrow) sample_na sample_dir ''lvq-pak'' (None :: nat metadata) ''train''
     = Inr (dset_opts ''lvq-pak'' (Some Map.empty)
              [[Str ''1.5'', Str ''2.5''], [Str ''0.5'', Str ''1.0'']] [Str ''A'', Str ''#''])"
    by (rule sample_process_train)
  show "process_lvq_pak (sample_fs sample_ex2_narrow) sample_na sample_dir ''lvq-pak'' (None :: nat metadata) ''test''
     = Inr (dset_opts ''lvq-pak'' (Some Map.empty) [[Str ''3.0'']] [Str ''B''])"
    by (rule sample_process_test_narrow)
  show "process_lvq_pak (sample_fs sample_ex2_narrow) sample_na sample_dir ''lvq-pak'' (None :: nat metadata) ''all''
     = Inl ValueError"
    using sample_train [of sample_ex2_narrow "Some Map.empty :: nat metadata"]
          sample_test_narrow [of "Some Map.empty :: nat metadata"]
    by (simp add: process_lvq_pak_def process_lvq_pak_with_def sample_dir_def np_vstack_def
                  array_ncols_def del: One_nat_def)
qed

lemma process_lvq_pak_train_iff:
  "process_lvq_pak fs na idp name md ''train'' = Inr (dset_opts name m d t) \<longleftrightarrow>
   read_space_delimited fs na (idp @ [name, ''lvq_pak-3.1'', ''ex1.dat'']) (Some [0, 1]) True
      (if md = None then Some Map.empty else md) = Inr (d, t, m)"
  unfolding process_lvq_pak_def process_lvq_pak_with_def Let_def
  by (auto split: sum.splits dest: dset_opts_inject)

lemma process_lvq_pak_test_iff:
  "process_lvq_pak fs na idp name md ''test'' = Inr (dset_opts name m d t) \<longleftrightarrow>
   read_space_delimited fs na (idp @ [name, ''lvq_pak-3.1'', ''ex2.dat'']) (Some [0]) True
      (if md = None then Some Map.empty else md) = Inr (d, t, m)"
  unfolding process_lvq_pak_def process_lvq_pak_with_def Let_def
  by (auto split: sum.splits dest: dset_opts_inject)

lemma read_space_delimited_metadata:
  "read_space_delimited fs na f s cl m = Inr (d, t, m') \<Longrightarrow> m' = m"
  by (auto simp: read_space_delimited_def split: option.splits sum.splits if_splits)

text \<open>
  Claim C8, amended. When \<^verbatim>\<open>kind='train'\<close> and \<^verbatim>\<open>kind='test'\<close> both return and their data
  have the same number of columns, \<^verbatim>\<open>kind='all'\<close> returns the train rows followed by the
  test rows and the train targets followed by the test targets; so its row count is the
  sum of the two, and when the two counts differ by at most one the train count is within
  one of half the count of \<^verbatim>\<open>'all'\<close>.
\<close>

theorem lvq_all_is_train_then_test:
  assumes tr: "process_lvq_pak fs na idp name md ''train'' = Inr (dset_opts name m1 d1 t1)"
      and te: "process_lvq_pak fs na idp name md ''test'' = Inr (dset_opts name m2 d2 t2)"
      and w: "array_ncols d1 = array_ncols d2"
  shows "process_lvq_pak fs na idp name md ''all'' = Inr (dset_opts name m2 (d1 @ d2) (t1 @ t2))
       \<and> length (d1 @ d2) = length d1 + length d2
       \<and> length (t1 @ t2) = length t1 + length t2
       \<and> (length d1 \<le> length d2 + 1 \<and> length d2 \<le> length d1 + 1 \<longrightarrow>
            2 * length d1 \<le> length (d1 @ d2) + 2 \<and> length (d1 @ d2) \<le> 2 * length d1 + 2)"
proof -
  let ?M = "if md = None then Some Map.empty else md"
  have r1: "read_space_delimited fs na (idp @ [name, ''lvq_pak-3.1'', ''ex1.dat'']) (Some [0, 1]) True ?M
              = Inr (d1, t1, m1)"
    using tr by (simp only: process_lvq_pak_train_iff)
  have r2: "read_space_delimited fs na (idp @ [name, ''lvq_pak-3.1'', ''ex2.dat'']) (Some [0]) True ?M
              = Inr (d2, t2, m2)"
    using te by (simp only: process_lvq_pak_test_iff)
  have m1: "m1 = ?M" using r1 by (rule read_space_delimited_metadata)
  have "process_lvq_pak fs na idp name md ''all'' = Inr (dset_opts name m2 (d1 @ d2) (t1 @ t2))"
    unfolding process_lvq_pak_def process_lvq_pak_with_def Let_def
    using r1 r2 w m1 by (simp add: np_vstack_def np_append_def del: One_nat_def)
  then show ?thesis by simp
qed

theorem lvq_all_is_train_then_test_witness:
  "process_lvq_pak (sample_fs sample_ex2) sample_na sample_dir ''lvq-pak'' (None :: nat metadata) ''train''
     = Inr (dset_opts ''lvq-pak'' (Some Map.empty)
              [[Str ''1.5'', Str ''2.5''], [Str ''0.5'', Str ''1.0'']] [Str ''A'', Str ''#''])
   \<and> process_lvq_pak (sample_fs sample_ex2) sample_na sample_dir ''lvq-pak'' (None :: nat metadata) ''test''
     = Inr (dset_opts ''lvq-pak'' (Some Map.empty) [[Str ''3.0'', Str ''4.0'']] [Str ''B''])
   \<and> array_ncols [[Str ''1.5'', Str ''2.5''], [Str ''0.5'', Str ''1.0'']] = array_ncols [[Str ''3.0'', Str ''4.0'']]
   \<and> process_lvq_pak (sample_fs sample_ex2) sample_na sample_dir ''lvq-pak'' (None :: nat metadata) ''all''
     = Inr (dset_opts ''lvq-pak'' (Some Map.empty)
              [[Str ''1.5'', Str ''2.5''], [Str ''0.5'', Str ''1.0''], [Str ''3.0'', Str ''4.0'']]
              [Str ''A'', Str ''#'', Str ''B''])"
proof -
  have a: "process_lvq_pak (sample_fs sample_ex2) sample_na sample_dir ''lvq-pak'' (None :: nat metadata) ''train''
     = Inr (dset_opts ''lvq-pak'' (Some Map.empty)
              [[Str ''1.5'', Str ''2.5''], [Str ''0.5'', Str ''1.0'']] [Str ''A'', Str ''#''])"
    by (rule sample_process_train)
  have b: "process_lvq_pak (sample_fs sample_ex2) sample_na sample_dir ''lvq-pak'' (None :: nat metadata) ''test''
     = Inr (dset_opts ''lvq-pak'' (Some Map.empty) [[Str ''3.0'', Str ''4.0'']] [Str ''B''])"
    by (rule sample_process_test)
  have c: "array_ncols [[Str ''1.5'', Str ''2.5''], [Str ''0.5'', Str ''1.0'']] = array_ncols [[Str ''3.0'', Str ''4.0'']]"
    by (simp add: array_ncols_def)
  show ?thesis using lvq_all_is_train_then_test [OF a b c] a b c by simp
qed

section \<open>The tokenizer on a text without double quotes\<close>

text \<open>
  On a text that holds no double quote the tokenizer does what the line and field functions
  say: it drops the skipped and the blank lines, splits every other line at each space,
  and hands the rows to the reader one after the other.
\<close>

lemma fields_of_ne [simp]: "fields_of l \<noteq> []"
  by (induction l) (auto split: list.splits)

lemma length_fields_of: "length (fields_of l) = count_list l SP + 1"
  by (induction l) (auto split: list.splits)

lemma lines_of_line: "LF \<notin> set l \<Longrightarrow> lines_of (l @ LF # t) = l # lines_of t"
  by (induction l) auto

lemma tokenize_bytes_append:
  "tokenize_bytes S p (a @ b) =
     (case tokenize_bytes S p a of Inl e \<Rightarrow> Inl e | Inr q \<Rightarrow> tokenize_bytes S q b)"
  by (induction a arbitrary: p) (auto split: sum.splits)

lemma field_steps_append:
  "field_steps p (a @ b) =
     (case field_steps p a of Inl e \<Rightarrow> Inl e | Inr q \<Rightarrow> field_steps q b)"
  by (induction a arbitrary: p) (auto split: sum.splits)

lemma end_line_state:
  "\<not> in_skip_line s \<Longrightarrow> end_line (p\<lparr>state := s\<rparr>) = end_line (p\<lparr>state := START_FIELD\<rparr>)"
  by (simp add: end_line_def in_skip_line_def split: sum.splits prod.splits)

lemma field_step_plain:
  assumes "state p = START_FIELD \<or> state p = IN_FIELD" "c \<noteq> LF" "c \<noteq> QUOTE"
  shows "field_step p c =
           Inr (if c = SP then p\<lparr>state := START_FIELD, line := line p @ [word p], word := []\<rparr>
                else p\<lparr>state := IN_FIELD, word := word p @ [c]\<rparr>)"
  using assms by (auto simp: field_step_def end_field_def push_char_def)

lemma field_step_LF:
  assumes "state p = START_FIELD \<or> state p = IN_FIELD"
  shows "field_step p LF = end_line (p\<lparr>state := START_FIELD, line := line p @ [word p], word := []\<rparr>)"
proof -
  have "field_step p LF = end_line (end_field p)" using assms by (auto simp: field_step_def)
  also have "end_field p = (p\<lparr>line := line p @ [word p], word := []\<rparr>)\<lparr>state := state p\<rparr>"
    by (cases p) (simp add: end_field_def)
  also have "end_line \<dots> = end_line ((p\<lparr>line := line p @ [word p], word := []\<rparr>)\<lparr>state := START_FIELD\<rparr>)"
    using assms by (intro end_line_state) (auto simp: in_skip_line_def)
  also have "(p\<lparr>line := line p @ [word p], word := []\<rparr>)\<lparr>state := START_FIELD\<rparr>
      = p\<lparr>state := START_FIELD, line := line p @ [word p], word := []\<rparr>"
    by (cases p) simp
  finally show ?thesis .
qed

lemma glue_Nil_fields: "glue [] (fields_of l) = fields_of l"
  by (cases "fields_of l") (auto simp: glue_def)

lemma glue_fields_space: "glue w (fields_of (SP # l)) = w # fields_of l"
  by (simp add: glue_def)

lemma glue_fields_char: "c \<noteq> SP \<Longrightarrow> glue w (fields_of (c # l)) = glue (w @ [c]) (fields_of l)"
  by (cases "fields_of l") (auto simp: glue_def)

lemma field_steps_line:
  assumes "state p = START_FIELD \<or> state p = IN_FIELD" "LF \<notin> set l" "QUOTE \<notin> set l"
  shows "field_steps p (l @ [LF]) =
           end_line (p\<lparr>state := START_FIELD, line := line p @ glue (word p) (fields_of l), word := []\<rparr>)"
  using assms
proof (induction l arbitrary: p)
  case Nil
  then show ?case by (simp add: field_step_LF glue_def split: sum.splits)
next
  case (Cons c l)
  have c: "c \<noteq> LF" "c \<noteq> QUOTE" using Cons.prems by auto
  show ?case
  proof (cases "c = SP")
    case True
    let ?q = "p\<lparr>state := START_FIELD, line := line p @ [word p], word := []\<rparr>"
    have "field_steps p ((c # l) @ [LF]) = field_steps ?q (l @ [LF])"
      using field_step_plain[OF Cons.prems(1) c] True by simp
    also have "\<dots> = end_line (?q\<lparr>state := START_FIELD, line := line ?q @ glue (word ?q) (fields_of l), word := []\<rparr>)"
      using Cons.prems by (intro Cons.IH) auto
    finally show ?thesis using True by (simp add: glue_fields_space glue_Nil_fields del: fields_of.simps)
  next
    case False
    let ?q = "p\<lparr>state := IN_FIELD, word := word p @ [c]\<rparr>"
    have "field_steps p ((c # l) @ [LF]) = field_steps ?q (l @ [LF])"
      using field_step_plain[OF Cons.prems(1) c] False by simp
    also have "\<dots> = end_line (?q\<lparr>state := START_FIELD, line := line ?q @ glue (word ?q) (fields_of l), word := []\<rparr>)"
      using Cons.prems by (intro Cons.IH) auto
    finally show ?thesis using False by (simp add: glue_fields_char del: fields_of.simps)
  qed
qed

lemma tokenize_bytes_single [simp]: "tokenize_bytes S p [c] = step S p c"
  by (simp split: sum.splits)

lemma field_steps_single [simp]: "field_steps p [c] = field_step p c"
  by (simp split: sum.splits)

lemma step_field_state:
  "state p = START_FIELD \<or> state p = IN_FIELD \<Longrightarrow> step S p c = field_step p c"
  by (auto simp: step_def)

lemma field_steps_plain:
  assumes "state p = START_FIELD \<or> state p = IN_FIELD" "LF \<notin> set a" "QUOTE \<notin> set a"
  shows "\<exists>q. field_steps p a = Inr q \<and> (state q = START_FIELD \<or> state q = IN_FIELD)
           \<and> tokenize_bytes S p a = Inr q"
  using assms
proof (induction a arbitrary: p)
  case Nil
  then show ?case by simp
next
  case (Cons c a)
  have c: "c \<noteq> LF" "c \<noteq> QUOTE" using Cons.prems by auto
  let ?q = "if c = SP then p\<lparr>state := START_FIELD, line := line p @ [word p], word := []\<rparr>
                else p\<lparr>state := IN_FIELD, word := word p @ [c]\<rparr>"
  have s: "field_step p c = Inr ?q" by (rule field_step_plain[OF Cons.prems(1) c])
  have s': "step S p c = Inr ?q" using s step_field_state[OF Cons.prems(1)] by simp
  have "state ?q = START_FIELD \<or> state ?q = IN_FIELD" by simp
  from Cons.IH[OF this] Cons.prems obtain q where
    "field_steps ?q a = Inr q" "state q = START_FIELD \<or> state q = IN_FIELD"
    "tokenize_bytes S ?q a = Inr q" by auto
  then show ?case using s s' by auto
qed

lemma tokenize_field_line:
  assumes "state p = START_FIELD \<or> state p = IN_FIELD" "LF \<notin> set l" "QUOTE \<notin> set l"
  shows "tokenize_bytes S p (l @ [LF]) =
           end_line (p\<lparr>state := START_FIELD, line := line p @ glue (word p) (fields_of l), word := []\<rparr>)"
proof -
  from field_steps_plain[OF assms] obtain q where
    q: "field_steps p l = Inr q" "state q = START_FIELD \<or> state q = IN_FIELD"
       "tokenize_bytes S p l = Inr q" by blast
  have "tokenize_bytes S p (l @ [LF]) = step S q LF"
    using q(3) by (simp add: tokenize_bytes_append split: sum.splits)
  also have "\<dots> = field_step q LF" using q(2) by (rule step_field_state)
  also have "\<dots> = field_steps p (l @ [LF])"
    using q(1) by (simp add: field_steps_append split: sum.splits)
  finally show ?thesis using field_steps_line[OF assms] by simp
qed

lemma tokenize_skip_line:
  assumes "state p = START_FIELD_IN_SKIP_LINE \<or> state p = IN_FIELD_IN_SKIP_LINE"
    "LF \<notin> set l" "QUOTE \<notin> set l"
  shows "tokenize_bytes S p (l @ [LF]) =
           Inr (p\<lparr>state := START_RECORD, file_lines := Suc (file_lines p), line := []\<rparr>)"
  using assms
proof (induction l arbitrary: p)
  case Nil
  then show ?case by (auto simp: step_def end_line_def in_skip_line_def)
next
  case (Cons c l)
  have c: "c \<noteq> LF" "c \<noteq> QUOTE" using Cons.prems by auto
  let ?q = "p\<lparr>state := (if c = SP then START_FIELD_IN_SKIP_LINE else IN_FIELD_IN_SKIP_LINE)\<rparr>"
  have s: "step S p c = Inr ?q"
    using Cons.prems(1) c by (cases p) (auto simp: step_def)
  have "state ?q = START_FIELD_IN_SKIP_LINE \<or> state ?q = IN_FIELD_IN_SKIP_LINE" by simp
  from Cons.IH[OF this] Cons.prems
  have "tokenize_bytes S ?q (l @ [LF]) =
          Inr (?q\<lparr>state := START_RECORD, file_lines := Suc (file_lines ?q), line := []\<rparr>)" by simp
  then show ?case using s by (cases p) simp
qed

lemma tokenize_ws_line:
  assumes "state p = WHITESPACE_LINE" "LF \<notin> set l" "QUOTE \<notin> set l" "set (ws p) \<subseteq> {TAB}"
  shows "tokenize_bytes S p (l @ [LF]) =
           (if set l \<subseteq> {TAB}
            then Inr (p\<lparr>state := START_RECORD, file_lines := Suc (file_lines p), ws := []\<rparr>)
            else field_steps (p\<lparr>state := START_FIELD, ws := []\<rparr>) (ws p @ l @ [LF]))"
  using assms
proof (induction l arbitrary: p)
  case Nil
  then show ?case by (simp add: step_def)
next
  case (Cons c l)
  have c: "c \<noteq> LF" "c \<noteq> QUOTE" using Cons.prems by auto
  show ?case
  proof (cases "c = TAB")
    case True
    let ?q = "p\<lparr>ws := ws p @ [c]\<rparr>"
    have s: "step S p c = Inr ?q" using Cons.prems(1) True by (simp add: step_def)
    have "tokenize_bytes S ?q (l @ [LF]) =
           (if set l \<subseteq> {TAB}
            then Inr (?q\<lparr>state := START_RECORD, file_lines := Suc (file_lines ?q), ws := []\<rparr>)
            else field_steps (?q\<lparr>state := START_FIELD, ws := []\<rparr>) (ws ?q @ l @ [LF]))"
      using Cons.prems True by (intro Cons.IH) auto
    then show ?thesis using s True by (cases p) simp
  next
    case False
    let ?P = "p\<lparr>state := START_FIELD, ws := []\<rparr>"
    have s: "step S p c = field_steps ?P (ws p @ [c])"
      using Cons.prems(1) c False by (simp add: step_def)
    have "state ?P = START_FIELD \<or> state ?P = IN_FIELD" by simp
    moreover have "LF \<notin> set (ws p @ [c])" "QUOTE \<notin> set (ws p @ [c])"
      using Cons.prems(4) c by auto
    ultimately obtain q where
      q: "field_steps ?P (ws p @ [c]) = Inr q" "state q = START_FIELD \<or> state q = IN_FIELD"
      using field_steps_plain by blast
    from field_steps_plain[OF q(2), of "l"] Cons.prems obtain q' where
      q': "field_steps q l = Inr q'" "state q' = START_FIELD \<or> state q' = IN_FIELD"
          "tokenize_bytes S q l = Inr q'" by auto
    have "tokenize_bytes S p ((c # l) @ [LF]) = tokenize_bytes S q (l @ [LF])"
      using s q(1) by simp
    also have "\<dots> = step S q' LF" using q'(3) by (simp add: tokenize_bytes_append split: sum.splits)
    also have "\<dots> = field_step q' LF" using q'(2) by (rule step_field_state)
    also have "\<dots> = field_steps q (l @ [LF])" using q'(1) by (simp add: field_steps_append split: sum.splits)
    also have "\<dots> = field_steps ?P ((ws p @ [c]) @ l @ [LF])"
      using q(1) by (simp only: field_steps_append[of ?P "ws p @ [c]"] sum.case)
    finally show ?thesis using False by simp
  qed
qed

lemma blank_line_simps [simp]:
  "blank_line []" "blank_line (c # l) \<longleftrightarrow> c = TAB \<and> blank_line l"
  by (auto simp: blank_line_def)

lemma tokenize_line:
  assumes p: "at_record_start p" and l: "LF \<notin> set l" "QUOTE \<notin> set l"
  shows "tokenize_bytes S p (l @ [LF]) =
           (if file_lines p \<in> set S \<or> blank_line l
            then Inr (p\<lparr>file_lines := Suc (file_lines p)\<rparr>)
            else end_line (p\<lparr>state := START_FIELD, line := fields_of l\<rparr>))"
proof (cases "file_lines p \<in> set S")
  case True
  show ?thesis
  proof (cases l)
    case Nil
    then show ?thesis using True p
      by (cases p) (simp add: at_record_start_def step_def end_line_def in_skip_line_def)
  next
    case (Cons c l')
    let ?q = "p\<lparr>state := IN_FIELD_IN_SKIP_LINE\<rparr>"
    have c: "c \<noteq> LF" "c \<noteq> QUOTE" using l Cons by auto
    have s: "step S p c = Inr ?q"
      using True p c by (simp add: at_record_start_def step_def)
    have "tokenize_bytes S ?q (l' @ [LF]) =
            Inr (?q\<lparr>state := START_RECORD, file_lines := Suc (file_lines ?q), line := []\<rparr>)"
      using l Cons by (intro tokenize_skip_line) auto
    then show ?thesis using s True p Cons
      by (cases p) (simp add: at_record_start_def)
  qed
next
  case False
  show ?thesis
  proof (cases l)
    case Nil
    then show ?thesis using False p by (simp add: at_record_start_def step_def)
  next
    case (Cons c l')
    have c: "c \<noteq> LF" "c \<noteq> QUOTE" using l Cons by auto
    let ?P = "p\<lparr>state := START_FIELD\<rparr>"
    have fl: "tokenize_bytes S ?P (l @ [LF]) = end_line (p\<lparr>state := START_FIELD, line := fields_of l\<rparr>)"
    proof -
      have "tokenize_bytes S ?P (l @ [LF]) =
              end_line (?P\<lparr>state := START_FIELD, line := line ?P @ glue (word ?P) (fields_of l), word := []\<rparr>)"
        using l by (intro tokenize_field_line) auto
      also have "?P\<lparr>state := START_FIELD, line := line ?P @ glue (word ?P) (fields_of l), word := []\<rparr>
                 = p\<lparr>state := START_FIELD, line := fields_of l\<rparr>"
        using p by (cases p) (simp add: at_record_start_def glue_Nil_fields del: fields_of.simps)
      finally show ?thesis .
    qed
    show ?thesis
    proof (cases "c = TAB")
      case True
      let ?q = "p\<lparr>state := WHITESPACE_LINE, ws := [c]\<rparr>"
      have s: "step S p c = Inr ?q"
        using False p True by (simp add: at_record_start_def step_def)
      have w: "tokenize_bytes S ?q (l' @ [LF]) =
           (if set l' \<subseteq> {TAB}
            then Inr (?q\<lparr>state := START_RECORD, file_lines := Suc (file_lines ?q), ws := []\<rparr>)
            else field_steps (?q\<lparr>state := START_FIELD, ws := []\<rparr>) (ws ?q @ l' @ [LF]))"
        using l Cons True by (intro tokenize_ws_line) auto
      show ?thesis
      proof (cases "set l' \<subseteq> {TAB}")
        case T: True
        then have "blank_line l" using Cons True by (simp add: blank_line_def)
        then show ?thesis using s w T Cons p
          by (cases p) (simp add: at_record_start_def)
      next
        case F: False
        then have nb: "\<not> blank_line l" using Cons by (simp add: blank_line_def)
        have "?q\<lparr>state := START_FIELD, ws := []\<rparr> = ?P"
          using p by (cases p) (simp add: at_record_start_def)
        then have "tokenize_bytes S p (l @ [LF]) = field_steps ?P (l @ [LF])"
          using s w F Cons by simp
        also have "\<dots> = tokenize_bytes S ?P (l @ [LF])"
          using field_steps_line[of ?P l] tokenize_field_line[of ?P l S] l by simp
        finally show ?thesis using fl nb False by simp
      qed
    next
      case F: False
      have "step S p c = field_step ?P c"
        using False p c F by (simp add: at_record_start_def step_def)
      also have "\<dots> = step S ?P c" by (simp add: step_field_state)
      finally have "tokenize_bytes S p (l @ [LF]) = tokenize_bytes S ?P (l @ [LF])"
        using Cons by simp
      moreover have "\<not> blank_line l" using Cons F by simp
      ultimately show ?thesis using fl False by simp
    qed
  qed
qed

lemma end_line_unquoted:
  "end_line p = Inr q \<Longrightarrow> state q = START_RECORD \<and> ws q = ws p"
  by (auto simp: end_line_def split: if_splits sum.splits prod.splits)

lemma field_step_unquoted:
  assumes "c \<noteq> QUOTE" "unquoted p" "field_step p c = Inr q"
  shows "unquoted q \<and> ws q = ws p"
proof (cases "state p = START_FIELD \<or> state p = IN_FIELD")
  case True
  show ?thesis
  proof (cases "c = LF")
    case T: True
    then have "end_line (end_field p) = Inr q" using assms True by (auto simp: field_step_def)
    from end_line_unquoted[OF this] show ?thesis
      using assms(2) by (simp add: unquoted_def end_field_def)
  next
    case False
    then show ?thesis using field_step_plain[OF True False assms(1)] assms
      by (auto simp: unquoted_def split: if_splits)
  qed
next
  case False
  then have "field_step p c = Inr p" using assms(2)
    by (auto simp: field_step_def unquoted_def)
  then show ?thesis using assms by simp
qed

lemma field_steps_unquoted:
  "QUOTE \<notin> set a \<Longrightarrow> unquoted p \<Longrightarrow> field_steps p a = Inr q \<Longrightarrow> unquoted q \<and> ws q = ws p"
proof (induction a arbitrary: p)
  case Nil
  then show ?case by simp
next
  case (Cons c a)
  from Cons.prems(3) obtain p' where p': "field_step p c = Inr p'" "field_steps p' a = Inr q"
    by (auto split: sum.splits)
  have "unquoted p' \<and> ws p' = ws p"
    using Cons.prems p'(1) by (intro field_step_unquoted[of c p p']) auto
  then show ?case using Cons.IH[of p'] Cons.prems(1) p'(2) by auto
qed

lemma step_unquoted:
  assumes "c \<noteq> QUOTE" "unquoted p" "step S p c = Inr q"
  shows "unquoted q"
proof -
  consider "state p = START_RECORD" | "state p = WHITESPACE_LINE"
    | "state p = START_FIELD \<or> state p = IN_FIELD"
    | "state p = START_FIELD_IN_SKIP_LINE \<or> state p = IN_FIELD_IN_SKIP_LINE"
    using assms(2) by (auto simp: unquoted_def)
  then show ?thesis
  proof cases
    case 1
    show ?thesis
    proof (cases "file_lines p \<in> set S")
      case True
      then show ?thesis using 1 assms
        by (auto simp: step_def unquoted_def end_line_def in_skip_line_def split: if_splits)
    next
      case False
      show ?thesis
      proof (cases "c = LF \<or> c = TAB")
        case True
        then show ?thesis using 1 False assms
          by (auto simp: step_def unquoted_def split: if_splits)
      next
        case F: False
        then have "field_step (p\<lparr>state := START_FIELD\<rparr>) c = Inr q"
          using 1 False assms by (auto simp: step_def)
        moreover have "unquoted (p\<lparr>state := START_FIELD\<rparr>)" using assms(2) by (simp add: unquoted_def)
        ultimately show ?thesis using field_step_unquoted assms(1) by blast
      qed
    qed
  next
    case 2
    show ?thesis
    proof (cases "c = LF \<or> c = TAB")
      case True
      then show ?thesis using 2 assms
        by (auto simp: step_def unquoted_def split: if_splits)
    next
      case False
      then have "field_steps (p\<lparr>state := START_FIELD, ws := []\<rparr>) (ws p @ [c]) = Inr q"
        using 2 assms by (auto simp: step_def)
      moreover have "unquoted (p\<lparr>state := START_FIELD, ws := []\<rparr>)" by (simp add: unquoted_def)
      moreover have "QUOTE \<notin> set (ws p @ [c])" using assms by (auto simp: unquoted_def)
      ultimately show ?thesis using field_steps_unquoted by blast
    qed
  next
    case 3
    then have "field_step p c = Inr q" using assms(3) by (simp add: step_field_state)
    then show ?thesis using field_step_unquoted assms by blast
  next
    case 4
    then show ?thesis using assms
      by (auto simp: step_def unquoted_def end_line_def in_skip_line_def split: if_splits)
  qed
qed

lemma tokenize_bytes_unquoted:
  "QUOTE \<notin> set t \<Longrightarrow> unquoted p \<Longrightarrow> tokenize_bytes S p t = Inr q \<Longrightarrow> unquoted q"
proof (induction t arbitrary: p)
  case Nil
  then show ?case by simp
next
  case (Cons c t)
  from Cons.prems(3) obtain p' where p': "step S p c = Inr p'" "tokenize_bytes S p' t = Inr q"
    by (auto split: sum.splits)
  have "unquoted p'" using Cons.prems p'(1) by (intro step_unquoted[of c p S p']) auto
  then show ?case using Cons.IH[of p'] Cons.prems(1) p'(2) by auto
qed

lemma eof_as_newline:
  assumes "unquoted q"
  shows "blocks_result (parser_handle_eof q) = blocks_result (step S q LF)"
proof -
  consider "state q = START_RECORD" | "state q = WHITESPACE_LINE"
    | "state q = START_FIELD \<or> state q = IN_FIELD"
    | "state q = START_FIELD_IN_SKIP_LINE \<or> state q = IN_FIELD_IN_SKIP_LINE"
    using assms by (auto simp: unquoted_def)
  then show ?thesis
  proof cases
    case 1
    then show ?thesis
      by (simp add: parser_handle_eof_def step_def blocks_result_def end_line_def in_skip_line_def)
  next
    case 2
    then show ?thesis by (simp add: parser_handle_eof_def step_def blocks_result_def)
  next
    case 3
    then have "parser_handle_eof q = end_line (end_field q)"
      by (auto simp: parser_handle_eof_def)
    moreover have "step S q LF = end_line (end_field q)"
      using 3 by (auto simp: step_def field_step_def)
    ultimately show ?thesis by simp
  next
    case 4
    then have "parser_handle_eof q = end_line q" by (auto simp: parser_handle_eof_def)
    moreover have "step S q LF = end_line q" using 4 by (auto simp: step_def)
    ultimately show ?thesis by simp
  qed
qed

lemma finish_all_newline:
  assumes "QUOTE \<notin> set t" "unquoted p"
  shows "finish_all S p t = blocks_result (tokenize_bytes S p (t @ [LF]))"
proof (cases "tokenize_bytes S p t")
  case (Inl e)
  then show ?thesis by (simp add: finish_all_def tokenize_bytes_append blocks_result_def)
next
  case (Inr q)
  then have "unquoted q" using assms tokenize_bytes_unquoted by blast
  then have "blocks_result (parser_handle_eof q) = blocks_result (step S q LF)" by (rule eof_as_newline)
  then show ?thesis using Inr
    by (simp add: finish_all_def tokenize_bytes_append blocks_result_def split: sum.splits)
qed

lemma end_line_row:
  assumes "at_record_start p"
  shows "end_line (p\<lparr>state := START_FIELD, line := r\<rparr>) =
           (case push_row (chunks p) (lines p) r of
              Inl e \<Rightarrow> Inl e
            | Inr (C, L) \<Rightarrow> Inr (p\<lparr>file_lines := Suc (file_lines p), lines := L, chunks := C\<rparr>))"
  using assms
  by (cases p)
     (simp add: end_line_def in_skip_line_def at_record_start_def split: sum.splits prod.splits)

lemma tokenize_terminated_lines:
  assumes "at_record_start p" "QUOTE \<notin> set u" "u = [] \<or> last u = LF"
  shows "blocks_result (tokenize_bytes S p u) =
           push_rows (chunks p) (lines p) (map fields_of (kept_from S (file_lines p) (lines_of u)))"
  using assms
proof (induction "length u" arbitrary: u p rule: less_induct)
  case less
  show ?case
  proof (cases "u = []")
    case True
    then show ?thesis by (simp add: blocks_result_def)
  next
    case False
    then have "LF \<in> set u" using less.prems(3) last_in_set by metis
    then obtain l u' where u: "u = l @ LF # u'" "LF \<notin> set l" by (meson split_list_first)
    have l: "QUOTE \<notin> set l" and u'q: "QUOTE \<notin> set u'"
      using less.prems(2) u by auto
    have u't: "u' = [] \<or> last u' = LF"
      using less.prems(3) u by (cases "u' = []") auto
    note u' = u'q u't
    have len: "length u' < length u" using u by simp
    have lo: "lines_of u = l # lines_of u'" using u by (simp add: lines_of_line)
    have tb: "tokenize_bytes S p u =
             (case tokenize_bytes S p (l @ [LF]) of Inl e \<Rightarrow> Inl e | Inr q \<Rightarrow> tokenize_bytes S q u')"
      using tokenize_bytes_append[of S p "l @ [LF]" u'] u by simp
    note tl = tokenize_line[OF less.prems(1) u(2) l, of S]
    show ?thesis
    proof (cases "file_lines p \<in> set S \<or> blank_line l")
      case True
      let ?q = "p\<lparr>file_lines := Suc (file_lines p)\<rparr>"
      have q: "at_record_start ?q" using less.prems(1) by (simp add: at_record_start_def)
      have "blocks_result (tokenize_bytes S p u) = blocks_result (tokenize_bytes S ?q u')"
        using tb tl True by simp
      also have "\<dots> = push_rows (chunks ?q) (lines ?q)
                          (map fields_of (kept_from S (file_lines ?q) (lines_of u')))"
        using len q u' by (intro less.hyps) auto
      finally show ?thesis using True lo by simp
    next
      case F: False
      note er = end_line_row[OF less.prems(1), of "fields_of l"]
      show ?thesis
      proof (cases "push_row (chunks p) (lines p) (fields_of l)")
        case (Inl e)
        then have "tokenize_bytes S p u = Inl e" using tb tl F er by simp
        then show ?thesis using Inl F lo by (simp add: blocks_result_def del: fields_of.simps)
      next
        case (Inr CL)
        obtain C L where CL: "CL = (C, L)" by (cases CL)
        let ?q = "p\<lparr>file_lines := Suc (file_lines p), lines := L, chunks := C\<rparr>"
        have q: "at_record_start ?q" using less.prems(1) by (simp add: at_record_start_def)
        have "tokenize_bytes S p (l @ [LF]) = Inr ?q" using tl F er Inr CL by simp
        then have "blocks_result (tokenize_bytes S p u) = blocks_result (tokenize_bytes S ?q u')"
          using tb by simp
        also have "\<dots> = push_rows (chunks ?q) (lines ?q)
                            (map fields_of (kept_from S (file_lines ?q) (lines_of u')))"
          using len q u' by (intro less.hyps) auto
        finally show ?thesis using Inr CL F lo by (simp del: fields_of.simps)
      qed
    qed
  qed
qed

lemma lines_of_eq_Nil [simp]: "lines_of t = [] \<longleftrightarrow> t = []"
  by (cases t) (auto split: list.splits)

lemma lines_of_snoc_LF:
  "lines_of (t @ [LF]) = (if t = [] \<or> last t = LF then lines_of t @ [[]] else lines_of t)"
  by (induction t) (auto split: list.splits)

lemma kept_from_snoc_blank: "kept_from S n (ls @ [[]]) = kept_from S n ls"
  by (induction ls arbitrary: n) auto

lemma kept_from_newline: "kept_from S n (lines_of (t @ [LF])) = kept_from S n (lines_of t)"
  by (simp add: lines_of_snoc_LF kept_from_snoc_blank)

lemma check_for_bom_subset: "set (check_for_bom t) \<subseteq> set t"
  by (auto simp: check_for_bom_def dest: in_set_dropD)

lemma tokenize_all_rows_plain:
  assumes "QUOTE \<notin> set text"
  shows "tokenize_all_rows S text = read_rows (map fields_of (kept_lines S (check_for_bom text)))"
proof -
  let ?t = "check_for_bom text"
  have q: "QUOTE \<notin> set ?t" using assms check_for_bom_subset by blast
  have p: "at_record_start parser_init" "unquoted parser_init"
    by (simp_all add: at_record_start_def unquoted_def parser_init_def)
  have "finish_all S parser_init ?t = blocks_result (tokenize_bytes S parser_init (?t @ [LF]))"
    using q p(2) by (rule finish_all_newline)
  also have "\<dots> = push_rows (chunks parser_init) (lines parser_init)
                      (map fields_of (kept_from S (file_lines parser_init) (lines_of (?t @ [LF]))))"
    using p(1) q by (intro tokenize_terminated_lines) auto
  also have "\<dots> = push_rows [] [] (map fields_of (kept_lines S ?t))"
    by (simp add: parser_init_def kept_from_newline kept_lines_def)
  finally have "finish_all S parser_init ?t = push_rows [] [] (map fields_of (kept_lines S ?t))" .
  moreover have "tokenize_all_rows S text =
      (case finish_all S parser_init ?t of Inl e \<Rightarrow> Inl e | Inr (C, L) \<Rightarrow> Inr (concat C @ L))"
    by (simp add: tokenize_all_rows_def finish_all_def blocks_result_def split: sum.splits)
  ultimately show ?thesis by (simp add: read_rows_def)
qed

section \<open>Rows handed to the reader\<close>

text \<open>
  What the reader makes of a sequence of rows: the rows it holds in the end are the rows
  it was given, some of them with empty fields added at the end, which the conversion to
  cells does not see; it fails only on a row that is longer than the row before it in
  its block.
\<close>

lemma convert_row_fill: "convert_row na w (r @ replicate k []) = convert_row na w r"
proof -
  have m: "min (w - length r) (k + (w - (length r + k))) = w - length r" by arith
  have "replicate k ([]::string) @ replicate (w - (length r + k)) []
          = replicate (k + (w - (length r + k))) []"
    by (simp add: replicate_add)
  then have "take (w - length r) (replicate k ([]::string) @ replicate (w - (length r + k)) [])
          = replicate (w - length r) []"
    using m by (simp del: replicate_add)
  then show ?thesis by (simp add: convert_row_def pad_to_def)
qed

lemma convert_row_exact: "length r = w \<Longrightarrow> convert_row na w r = map (to_cell na) r"
  by (simp add: convert_row_def pad_to_def)

lemma push_row_shape:
  assumes "push_row C L r = Inr (C', L')"
  shows "\<exists>k. concat C' @ L' = concat C @ L @ [r @ replicate k []] \<and> (L = [] \<longrightarrow> k = 0)"
  using assms by (auto simp: push_row_def Let_def split: if_splits)

lemma push_rows_shape:
  assumes "push_rows C L rs = Inr (C', L')"
  shows "\<exists>P. concat C' @ L' = concat C @ L @ P \<and> length P = length rs \<and>
             (\<forall>w. map (convert_row na w) P = map (convert_row na w) rs) \<and>
             (L = [] \<and> rs \<noteq> [] \<longrightarrow> hd P = hd rs)"
  using assms
proof (induction rs arbitrary: C L)
  case Nil
  then show ?case by simp
next
  case (Cons r rs)
  from Cons.prems obtain C1 L1 where
    1: "push_row C L r = Inr (C1, L1)" and 2: "push_rows C1 L1 rs = Inr (C', L')"
    by (auto split: sum.splits)
  from push_row_shape[OF 1] obtain k where
    k: "concat C1 @ L1 = concat C @ L @ [r @ replicate k []]" "L = [] \<longrightarrow> k = 0" by blast
  from Cons.IH[OF 2] obtain P where
    P: "concat C' @ L' = concat C1 @ L1 @ P" "length P = length rs"
       "\<forall>w. map (convert_row na w) P = map (convert_row na w) rs" by blast
  let ?P = "(r @ replicate k []) # P"
  have "concat C' @ L' = concat C @ L @ ?P" using P(1) k(1) by simp
  moreover have "length ?P = length (r # rs)" using P(2) by simp
  moreover have "\<forall>w. map (convert_row na w) ?P = map (convert_row na w) (r # rs)"
    using P(3) by (simp add: convert_row_fill)
  moreover have "L = [] \<and> r # rs \<noteq> [] \<longrightarrow> hd ?P = hd (r # rs)" using k(2) by simp
  ultimately show ?case by blast
qed

lemma read_rows_shape:
  assumes "read_rows rs = Inr out"
  shows "length out = length rs \<and> (rs \<noteq> [] \<longrightarrow> hd out = hd rs) \<and>
         (\<forall>w. map (convert_row na w) out = map (convert_row na w) rs)"
proof -
  from assms obtain C L where
    1: "push_rows [] [] rs = Inr (C, L)" and out: "out = concat C @ L"
    by (auto simp: read_rows_def split: sum.splits)
  from push_rows_shape[OF 1, of na] show ?thesis using out by auto
qed

lemma push_rows_err: "push_rows C L rs = Inl e \<Longrightarrow> e = ParserError"
  by (induction rs arbitrary: C L) (auto split: sum.splits dest: push_row_err)

lemma read_rows_err: "read_rows rs = Inl e \<Longrightarrow> e = ParserError"
  by (auto simp: read_rows_def split: sum.splits dest: push_rows_err)

text \<open>Rows of one length are all taken, however many they are.\<close>

lemma push_rows_uniform:
  assumes "\<forall>r \<in> set rs. length r = w" "L \<noteq> [] \<longrightarrow> length (last L) = w"
  shows "\<exists>C' L'. push_rows C L rs = Inr (C', L')"
  using assms
proof (induction rs arbitrary: C L)
  case Nil
  then show ?case by simp
next
  case (Cons r rs)
  have r: "length r = w" and rs: "\<forall>r \<in> set rs. length r = w" using Cons.prems(1) by auto
  let ?L = "L @ [r @ replicate ((if L = [] then 0 else length (last L)) - length r) []]"
  have last: "?L \<noteq> [] \<longrightarrow> length (last ?L) = w" using r Cons.prems(2) by auto
  have e: "[] \<noteq> [] \<longrightarrow> length (last ([]::string list list)) = w" by simp
  have "push_row C L r = Inr (C @ [?L], []) \<or> push_row C L r = Inr (C, ?L)"
    using r Cons.prems(2) by (auto simp: push_row_def Let_def)
  then show ?case
  proof
    assume "push_row C L r = Inr (C @ [?L], [])"
    then show ?thesis using Cons.IH[OF rs e, of "C @ [?L]"] by simp
  next
    assume "push_row C L r = Inr (C, ?L)"
    then show ?thesis using Cons.IH[OF rs last, of C] by simp
  qed
qed

lemma read_rows_uniform:
  assumes "\<forall>r \<in> set rs. length r = w"
  shows "\<exists>out. read_rows rs = Inr out"
proof -
  from push_rows_uniform[OF assms, of "[]" "[]"] obtain C' L' where
    "push_rows [] [] rs = Inr (C', L')" by auto
  then show ?thesis by (simp add: read_rows_def)
qed

text \<open>
  Within the first block every row has the length of the first, so a longer row is an
  error there, and rows that are not longer are all taken.
\<close>

lemma table_width_first: "L \<noteq> [] \<Longrightarrow> table_width [] (L @ [r]) = length (hd L)"
  by (cases L) (simp_all add: table_width_def)

lemma push_rows_block_err:
  assumes "L \<noteq> []" "\<forall>r \<in> set L. length r = w" "int (length L + i) < buffer_lines w"
    "i < length rs" "w < length (rs ! i)"
  shows "push_rows [] L rs = Inl ParserError"
  using assms
proof (induction rs arbitrary: L i)
  case Nil
  then show ?case by simp
next
  case (Cons r rs)
  have lw: "length (last L) = w" "length (hd L) = w" using Cons.prems(1,2) by auto
  show ?case
  proof (cases "w < length r")
    case True
    then show ?thesis using Cons.prems(1) lw by (simp add: push_row_def Let_def)
  next
    case False
    then obtain j where i: "i = Suc j" using Cons.prems(5) by (cases i) auto
    let ?L = "L @ [r @ replicate (w - length r) []]"
    have nf: "\<not> buffer_lines w \<le> int (length ?L)" using Cons.prems(3) i by simp
    have pr: "push_row [] L r = Inr ([], ?L)"
      using False Cons.prems(1) lw nf by (simp add: push_row_def Let_def table_width_first)
    have "push_rows [] ?L rs = Inl ParserError"
    proof (rule Cons.IH)
      show "?L \<noteq> []" by simp
      show "\<forall>r \<in> set ?L. length r = w" using Cons.prems(2) False by auto
      show "int (length ?L + j) < buffer_lines w" using Cons.prems(3) i by simp
      show "j < length rs" using Cons.prems(4) i by simp
      show "w < length (rs ! j)" using Cons.prems(5) i by simp
    qed
    then show ?thesis using pr by simp
  qed
qed

lemma push_row_first:
  "push_row [] [] r = (if buffer_lines (length r) \<le> 1 then Inr ([[r]], []) else Inr ([], [r]))"
  by (simp add: push_row_def Let_def table_width_def)

lemma read_rows_long_row:
  assumes "i < length rs" "int (Suc i) < buffer_lines (length r0)" "length r0 < length (rs ! i)"
  shows "read_rows (r0 # rs) = Inl ParserError"
proof -
  have "push_row [] [] r0 = Inr ([], [r0])" using assms(2) by (simp add: push_row_first)
  moreover have "push_rows [] [r0] rs = Inl ParserError"
    using assms by (intro push_rows_block_err[where w = "length r0" and i = i]) auto
  ultimately show ?thesis by (simp add: read_rows_def)
qed

lemma push_rows_block_ok:
  assumes "L \<noteq> []" "\<forall>r \<in> set L. length r = w"
    "int (length L + length rs) \<le> buffer_lines w"
    "\<forall>r \<in> set rs. length r \<le> w"
  shows "\<exists>C' L'. push_rows [] L rs = Inr (C', L')"
  using assms
proof (induction rs arbitrary: L)
  case Nil
  then show ?case by simp
next
  case (Cons r rs)
  have lw: "length (last L) = w" "length (hd L) = w" using Cons.prems(1,2) by auto
  have r: "length r \<le> w" using Cons.prems(4) by simp
  let ?L = "L @ [r @ replicate (w - length r) []]"
  show ?case
  proof (cases "buffer_lines w \<le> int (length ?L)")
    case True
    then have "rs = []" using Cons.prems(3) by (cases rs) auto
    moreover have "push_row [] L r = Inr ([?L], [])"
      using r Cons.prems(1) lw True by (simp add: push_row_def Let_def table_width_first)
    ultimately show ?thesis by simp
  next
    case False
    then have pr: "push_row [] L r = Inr ([], ?L)"
      using r Cons.prems(1) lw by (simp add: push_row_def Let_def table_width_first)
    have "\<exists>C' L'. push_rows [] ?L rs = Inr (C', L')"
    proof (rule Cons.IH)
      show "?L \<noteq> []" by simp
      show "\<forall>r \<in> set ?L. length r = w" using Cons.prems(2) r by auto
      show "int (length ?L + length rs) \<le> buffer_lines w" using Cons.prems(3) by simp
      show "\<forall>r \<in> set rs. length r \<le> w" using Cons.prems(4) by simp
    qed
    then show ?thesis using pr by simp
  qed
qed

lemma read_rows_one_block:
  assumes "int (Suc (length rs)) \<le> buffer_lines (length r0)"
    "\<forall>r \<in> set rs. length r \<le> length r0"
  shows "\<exists>out. read_rows (r0 # rs) = Inr out"
proof (cases "buffer_lines (length r0) \<le> 1")
  case True
  then have "rs = []" using assms(1) by (cases rs) auto
  then show ?thesis using True by (simp add: read_rows_def push_row_first)
next
  case False
  then have "push_row [] [] r0 = Inr ([], [r0])" by (simp add: push_row_first)
  moreover have "\<exists>C' L'. push_rows [] [r0] rs = Inr (C', L')"
    using assms by (intro push_rows_block_ok[where w = "length r0"]) auto
  ultimately show ?thesis by (auto simp: read_rows_def)
qed

text \<open>A full block of equal rows, and what follows it.\<close>

lemma push_rows_replicate:
  assumes "buffer_lines (length r) = int (k + j)" "0 < j"
  shows "push_rows [] (replicate k r) (replicate j r @ rest)
           = push_rows [replicate (k + j) r] [] rest"
  using assms
proof (induction j arbitrary: k)
  case 0
  then show ?case by simp
next
  case (Suc j)
  let ?L = "replicate k r @ [r @ replicate ((if replicate k r = [] then 0 else length (last (replicate k r))) - length r) []]"
  have L: "?L = replicate (Suc k) r" by (simp add: replicate_append_same)
  have tw: "table_width [] (replicate (Suc k) r) = length r" by (simp add: table_width_def)
  show ?case
  proof (cases "j = 0")
    case True
    then have "push_row [] (replicate k r) r = Inr ([replicate (Suc k) r], [])"
      using Suc.prems L tw by (simp add: push_row_def Let_def)
    then show ?thesis using True by simp
  next
    case False
    then have "push_row [] (replicate k r) r = Inr ([], replicate (Suc k) r)"
      using Suc.prems L tw by (simp add: push_row_def Let_def)
    moreover have "push_rows [] (replicate (Suc k) r) (replicate j r @ rest)
           = push_rows [replicate (Suc k + j) r] [] rest"
      using Suc.prems False by (intro Suc.IH) auto
    ultimately show ?thesis by simp
  qed
qed

lemma push_rows_full_block:
  assumes "buffer_lines (length r) = int n"
  shows "push_rows [] [] (replicate n r @ rest) = push_rows [replicate n r] [] rest"
proof -
  have "0 < n" using assms buffer_lines_pos[of "length r"] by simp
  then show ?thesis using push_rows_replicate[of r 0 n rest] assms by simp
qed

section \<open>Reading a file without double quotes\<close>

text \<open>
  The text handed to \<^verbatim>\<open>read_csv\<close> holds no carriage return, and no double quote unless
  the file holds one. The result of reading such a file is then read off its rows: the
  reader is handed the rows one after the other; when it takes them all, no row at all is
  \<^verbatim>\<open>EmptyDataError\<close>, and otherwise the frame has the width of the first row and one row
  of cells for each row of the file.
\<close>

lemma universal_newlines_chars: "set (universal_newlines s) \<subseteq> insert LF (set s)"
  by (induction s rule: universal_newlines.induct) auto

lemma universal_newlines_no_quote: "QUOTE \<notin> set s \<Longrightarrow> QUOTE \<notin> set (universal_newlines s)"
  using universal_newlines_chars by fastforce

lemma universal_newlines_no_CR: "CR \<notin> set (universal_newlines s)"
  by (induction s rule: universal_newlines.induct) auto

lemma universal_newlines_id: "CR \<notin> set s \<Longrightarrow> universal_newlines s = s"
  by (induction s rule: universal_newlines.induct) auto

lemma check_for_bom_id: "CHR 0xEF \<notin> set t \<Longrightarrow> check_for_bom t = t"
proof -
  assume a: "CHR 0xEF \<notin> set t"
  have "take 3 t \<noteq> BOM"
  proof
    assume "take 3 t = BOM"
    then have "CHR 0xEF \<in> set (take 3 t)" by (simp add: BOM_def)
    then show False using a in_set_takeD by fastforce
  qed
  then show ?thesis by (simp add: check_for_bom_def)
qed

lemma read_csv_plain:
  assumes "QUOTE \<notin> set input"
  shows "read_csv na input skiprows =
           (case read_rows (map fields_of (kept_lines (skip_list skiprows) (check_for_bom input))) of
              Inl e \<Rightarrow> Inl e
            | Inr out \<Rightarrow>
                (case map fields_of (kept_lines (skip_list skiprows) (check_for_bom input)) of
                   [] \<Rightarrow> Inl EmptyDataError
                 | r0 # rs \<Rightarrow>
                     Inr \<lparr>ncols = length r0, rows = map (convert_row na (length r0)) (r0 # rs)\<rparr>))"
proof -
  let ?R = "map fields_of (kept_lines (skip_list skiprows) (check_for_bom input))"
  note t = tokenize_all_rows_plain[OF assms, of "skip_list skiprows"]
  show ?thesis
  proof (cases "read_rows ?R")
    case (Inl e)
    then show ?thesis using t by (simp add: read_csv_def)
  next
    case (Inr out)
    note sh = read_rows_shape[OF Inr, of na]
    show ?thesis
    proof (cases ?R)
      case Nil
      then have "out = []" using sh by simp
      then show ?thesis using t Inr Nil by (simp add: read_csv_def)
    next
      case (Cons r0 rs)
      then obtain o0 os where out: "out = o0 # os" using sh by (cases out) auto
      have "o0 = r0" using sh Cons out by simp
      moreover have "map (convert_row na (length r0)) out = map (convert_row na (length r0)) ?R"
        using sh by blast
      ultimately show ?thesis using t Inr Cons out
        by (simp add: read_csv_def del: fields_of.simps)
    qed
  qed
qed

lemma file_rows_ne: "r \<in> set (file_rows skiprows content) \<Longrightarrow> r \<noteq> []"
  by (auto simp: file_rows_def)

lemma read_space_delimited_plain:
  assumes "fs filename = Some content" and "QUOTE \<notin> set content"
  shows "read_space_delimited fs na filename skiprows class_labels md =
           (case read_rows (file_rows skiprows content) of
              Inl e \<Rightarrow> Inl e
            | Inr out \<Rightarrow>
                (case file_rows skiprows content of
                   [] \<Rightarrow> Inl EmptyDataError
                 | r0 # rs \<Rightarrow>
                     if class_labels
                     then Inr (map (\<lambda>r. take (length r0 - 1) (convert_row na (length r0) r)) (r0 # rs),
                               map (\<lambda>r. convert_row na (length r0) r ! (length r0 - 1)) (r0 # rs),
                               md)
                     else Inr (map (convert_row na (length r0)) (r0 # rs),
                               np_zeros (Suc (length rs)), md)))"
proof -
  have q: "QUOTE \<notin> set (universal_newlines content)"
    using assms(2) by (rule universal_newlines_no_quote)
  note rc = read_csv_plain[OF q, of na skiprows, folded csv_text_def, folded file_rows_def]
  show ?thesis
  proof (cases "read_rows (file_rows skiprows content)")
    case (Inl e)
    then show ?thesis using rc assms(1) by (simp add: read_space_delimited_def)
  next
    case (Inr out)
    show ?thesis
    proof (cases "file_rows skiprows content")
      case Nil
      then show ?thesis using rc Inr assms(1) by (simp add: read_space_delimited_def)
    next
      case (Cons r0 rs)
      then have "r0 \<noteq> []" using file_rows_ne[of r0 skiprows content] by simp
      then show ?thesis using rc Inr Cons assms(1)
        by (simp add: read_space_delimited_def comp_def)
    qed
  qed
qed

lemma take_convert_row_exact:
  assumes "length r = w" "r \<noteq> []"
  shows "take (w - 1) (convert_row na w r) = map (to_cell na) (butlast r)"
    and "convert_row na w r ! (w - 1) = to_cell na (last r)"
proof -
  show "take (w - 1) (convert_row na w r) = map (to_cell na) (butlast r)"
    using assms by (simp add: convert_row_exact butlast_conv_take take_map)
  have "w - 1 < length r" using assms by (cases r) auto
  then show "convert_row na w r ! (w - 1) = to_cell na (last r)"
    using assms by (simp add: convert_row_exact last_conv_nth)
qed

lemma tl_lines_of_prefix: "LF \<notin> set a \<Longrightarrow> tl (lines_of (a @ t)) = tl (lines_of t)"
  by (induction a) (auto split: list.splits)

lemma tl_lines_of_bom: "tl (lines_of (check_for_bom t)) = tl (lines_of t)"
proof (cases "take 3 t = BOM")
  case True
  then have "t = BOM @ drop 3 t" by (metis append_take_drop_id)
  moreover have "LF \<notin> set BOM" by (simp add: BOM_def)
  ultimately have "tl (lines_of t) = tl (lines_of (drop 3 t))"
    using tl_lines_of_prefix by metis
  then show ?thesis using True by (simp add: check_for_bom_def)
next
  case False
  then show ?thesis by (simp add: check_for_bom_def)
qed

lemma kept_lines_skip_first:
  "0 \<in> set S \<Longrightarrow> kept_lines S t = kept_from S (Suc 0) (tl (lines_of t))"
  by (cases "lines_of t") (simp_all add: kept_lines_def)

lemma kept_lines_bom: "0 \<in> set S \<Longrightarrow> kept_lines S (check_for_bom t) = kept_lines S t"
  by (simp add: kept_lines_skip_first tl_lines_of_bom)

section \<open>The label column\<close>

lemma one_file_lookup: "one_file content [''sample.dat''] = Some content"
  by (simp add: one_file_def)

lemma read_one_file:
  "read_space_delimited (one_file content) na [''sample.dat''] skiprows class_labels md =
     (case read_csv na (universal_newlines content) skiprows of
        Inl e \<Rightarrow> Inl e
      | Inr df \<Rightarrow>
          if class_labels then
            (if ncols df = 0 then Inl IndexError
             else Inr (map (take (ncols df - 1)) (rows df),
                       map (\<lambda>r. r ! (ncols df - 1)) (rows df), md))
          else Inr (rows df, np_zeros (length (rows df)), md))"
  by (simp add: read_space_delimited_def one_file_def)

lemma sample_na_label_csv:
  "read_csv sample_na (universal_newlines sample_na_label) None
     = Inr \<lparr>ncols = 3, rows = [[Str ''1'', Str ''2'', NaN], [Str ''3'', Str ''4'', Str ''B'']]\<rparr>"
  by code_simp

lemma sample_nul_label_csv:
  "read_csv sample_na (universal_newlines sample_nul_label) None
     = Inr \<lparr>ncols = 3, rows = [[Str ''1'', Str ''2'', Str ''a'']]\<rparr>"
  by code_simp

lemma sample_quoted_label_csv:
  "read_csv sample_na (universal_newlines sample_quoted_label) None
     = Inr \<lparr>ncols = 3, rows = [[Str ''1'', Str ''2'', Str ''a'']]\<rparr>"
  by code_simp

lemma sample_empty_csv: "read_csv sample_na [] None = Inl EmptyDataError"
  by code_simp

text \<open>
  Claim C2 as stated fails, on files whose rows all have three fields. The label
  \<^verbatim>\<open>NA\<close> of the first sample is one of the library's missing-value markers and comes
  out as \<^verbatim>\<open>nan\<close>, not as the field. The label of the second sample holds a NUL byte and
  comes out cut before it. The label of the third sample stands in double quotes, which
  are part of the field and are not part of the label returned. And the empty file, which
  has no row, is not parsed at all.
\<close>

theorem label_column_counterexample:
  "file_rows None sample_na_label = [[''1'', ''2'', ''NA''], [''3'', ''4'', ''B'']]
   \<and> read_space_delimited (one_file sample_na_label) sample_na [''sample.dat''] None True ()
       = Inr ([[Str ''1'', Str ''2''], [Str ''3'', Str ''4'']], [NaN, Str ''B''], ())
   \<and> file_rows None sample_nul_label = [[''1'', ''2'', [CHR ''a'', NUL, CHR ''b'']]]
   \<and> read_space_delimited (one_file sample_nul_label) sample_na [''sample.dat''] None True ()
       = Inr ([[Str ''1'', Str ''2'']], [Str ''a''], ())
   \<and> file_rows None sample_quoted_label = [[''1'', ''2'', [QUOTE, CHR ''a'', QUOTE]]]
   \<and> read_space_delimited (one_file sample_quoted_label) sample_na [''sample.dat''] None True ()
       = Inr ([[Str ''1'', Str ''2'']], [Str ''a''], ())
   \<and> file_rows None [] = []
   \<and> read_space_delimited (one_file []) sample_na [''sample.dat''] None True ()
       = Inl EmptyDataError"
proof (intro conjI)
  show "file_rows None sample_na_label = [[''1'', ''2'', ''NA''], [''3'', ''4'', ''B'']]"
    by code_simp
  show "read_space_delimited (one_file sample_na_label) sample_na [''sample.dat''] None True ()
       = Inr ([[Str ''1'', Str ''2''], [Str ''3'', Str ''4'']], [NaN, Str ''B''], ())"
    by (simp add: read_one_file sample_na_label_csv)
  show "file_rows None sample_nul_label = [[''1'', ''2'', [CHR ''a'', NUL, CHR ''b'']]]"
    by code_simp
  show "read_space_delimited (one_file sample_nul_label) sample_na [''sample.dat''] None True ()
       = Inr ([[Str ''1'', Str ''2'']], [Str ''a''], ())"
    by (simp add: read_one_file sample_nul_label_csv)
  show "file_rows None sample_quoted_label = [[''1'', ''2'', [QUOTE, CHR ''a'', QUOTE]]]"
    by code_simp
  show "read_space_delimited (one_file sample_quoted_label) sample_na [''sample.dat''] None True ()
       = Inr ([[Str ''1'', Str ''2'']], [Str ''a''], ())"
    by (simp add: read_one_file sample_quoted_label_csv)
  show "file_rows None [] = []" by code_simp
  show "read_space_delimited (one_file []) sample_na [''sample.dat''] None True ()
       = Inl EmptyDataError"
    by (simp add: read_one_file sample_empty_csv)
qed

text \<open>
  Claim C2, amended. Take a file without double quotes that has a row and whose rows all
  have the same number of fields. Read with \<^verbatim>\<open>class_labels\<close> true it is parsed, whatever
  its size: the target holds, for each row, the cell of its last field, and the data holds,
  for each row, the cells of the fields before the last; so the target has one entry per
  row and the data is one column narrower than the rows. The cell of a field is the field
  cut at its first NUL byte, or \<^verbatim>\<open>nan\<close> when what is left is one of the library's
  missing-value markers. The rows of the file are those of its text without a byte-order
  mark at the start.
\<close>

theorem label_is_last_field:
  assumes "fs filename = Some content" and "QUOTE \<notin> set content"
    and "file_rows skiprows content = r0 # rs"
    and "\<forall>r \<in> set rs. length r = length r0"
  shows "read_space_delimited fs na filename skiprows True md =
           Inr (map (\<lambda>r. map (to_cell na) (butlast r)) (r0 # rs),
                map (\<lambda>r. to_cell na (last r)) (r0 # rs), md)"
proof -
  have u: "\<forall>r \<in> set (r0 # rs). length r = length r0" using assms(4) by simp
  from read_rows_uniform[OF u] obtain out where out: "read_rows (r0 # rs) = Inr out" by blast
  have ne: "\<forall>r \<in> set (r0 # rs). r \<noteq> []"
    using file_rows_ne[of _ skiprows content] assms(3) by auto
  have d: "map (\<lambda>r. take (length r0 - 1) (convert_row na (length r0) r)) (r0 # rs)
             = map (\<lambda>r. map (to_cell na) (butlast r)) (r0 # rs)"
    using u ne by (intro map_cong refl take_convert_row_exact) auto
  have t: "map (\<lambda>r. convert_row na (length r0) r ! (length r0 - 1)) (r0 # rs)
             = map (\<lambda>r. to_cell na (last r)) (r0 # rs)"
    using u ne by (intro map_cong refl take_convert_row_exact) auto
  have "read_space_delimited fs na filename skiprows True md =
          Inr (map (\<lambda>r. take (length r0 - 1) (convert_row na (length r0) r)) (r0 # rs),
               map (\<lambda>r. convert_row na (length r0) r ! (length r0 - 1)) (r0 # rs), md)"
    using read_space_delimited_plain
            [where fs = fs and filename = filename and content = content and na = na
               and skiprows = skiprows and class_labels = True and md = md, OF assms(1,2)]
          assms(3) out
    by simp
  then show ?thesis by (simp only: d t)
qed

theorem label_is_last_field_witness:
  "one_file sample_ex1 [''sample.dat''] = Some sample_ex1
   \<and> QUOTE \<notin> set sample_ex1
   \<and> file_rows (Some [0, 1]) sample_ex1 = [''1.5'', ''2.5'', ''A''] # [[''0.5'', ''1.0'', ''#'']]
   \<and> list_all (\<lambda>r. length r = length [''1.5'', ''2.5'', ''A'']) [[''0.5'', ''1.0'', ''#'']]
   \<and> read_space_delimited (one_file sample_ex1) sample_na [''sample.dat''] (Some [0, 1]) True ()
       = Inr ([[Str ''1.5'', Str ''2.5''], [Str ''0.5'', Str ''1.0'']], [Str ''A'', Str ''#''], ())
   \<and> one_file sample_bom [''sample.dat''] = Some sample_bom
   \<and> QUOTE \<notin> set sample_bom
   \<and> file_rows None sample_bom = [''1'', ''2'', ''a''] # []
   \<and> read_space_delimited (one_file sample_bom) sample_na [''sample.dat''] None True ()
       = Inr ([[Str ''1'', Str ''2'']], [Str ''a''], ())
   \<and> one_file sample_crlf [''sample.dat''] = Some sample_crlf
   \<and> QUOTE \<notin> set sample_crlf
   \<and> file_rows None sample_crlf = [''1'', ''2'', ''a''] # [[''3'', ''4'', ''b'']]
   \<and> list_all (\<lambda>r. length r = length [''1'', ''2'', ''a'']) [[''3'', ''4'', ''b'']]
   \<and> read_space_delimited (one_file sample_crlf) sample_na [''sample.dat''] None True ()
       = Inr ([[Str ''1'', Str ''2''], [Str ''3'', Str ''4'']], [Str ''a'', Str ''b''], ())"
proof -
  have a1: "one_file sample_ex1 [''sample.dat''] = Some sample_ex1" by (rule one_file_lookup)
  have a2: "QUOTE \<notin> set sample_ex1" by (simp add: sample_ex1_def)
  have a3: "file_rows (Some [0, 1]) sample_ex1 = [''1.5'', ''2.5'', ''A''] # [[''0.5'', ''1.0'', ''#'']]"
    by code_simp
  have a4: "\<forall>r \<in> set [[''0.5'', ''1.0'', ''#'']]. length r = length [''1.5'', ''2.5'', ''A'']"
    by simp
  have a4': "list_all (\<lambda>r. length r = length [''1.5'', ''2.5'', ''A'']) [[''0.5'', ''1.0'', ''#'']]"
    by simp
  have c: "map (to_cell sample_na)
              [''1.5'', ''2.5'', ''A'', ''0.5'', ''1.0'', ''#'', ''1'', ''2'', ''a'', ''3'', ''4'', ''b'']
             = [Str ''1.5'', Str ''2.5'', Str ''A'', Str ''0.5'', Str ''1.0'', Str ''#'',
                Str ''1'', Str ''2'', Str ''a'', Str ''3'', Str ''4'', Str ''b'']"
    by code_simp
  have a5: "read_space_delimited (one_file sample_ex1) sample_na [''sample.dat''] (Some [0, 1]) True ()
       = Inr ([[Str ''1.5'', Str ''2.5''], [Str ''0.5'', Str ''1.0'']], [Str ''A'', Str ''#''], ())"
    using label_is_last_field
            [where fs = "one_file sample_ex1" and filename = "[''sample.dat'']"
               and content = sample_ex1 and skiprows = "Some [0, 1]" and na = sample_na
               and md = "()", OF a1 a2 a3 a4] c
    by simp
  have b1: "one_file sample_bom [''sample.dat''] = Some sample_bom" by (rule one_file_lookup)
  have b2: "QUOTE \<notin> set sample_bom" by (simp add: sample_bom_def BOM_def)
  have b3: "file_rows None sample_bom = [''1'', ''2'', ''a''] # []" by code_simp
  have b4: "\<forall>r \<in> set []. length r = length [''1'', ''2'', ''a'']" by simp
  have b5: "read_space_delimited (one_file sample_bom) sample_na [''sample.dat''] None True ()
       = Inr ([[Str ''1'', Str ''2'']], [Str ''a''], ())"
    using label_is_last_field
            [where fs = "one_file sample_bom" and filename = "[''sample.dat'']"
               and content = sample_bom and skiprows = None and na = sample_na
               and md = "()", OF b1 b2 b3 b4] c
    by simp
  have c1: "one_file sample_crlf [''sample.dat''] = Some sample_crlf" by (rule one_file_lookup)
  have c2: "QUOTE \<notin> set sample_crlf" by (simp add: sample_crlf_def)
  have c3: "file_rows None sample_crlf = [''1'', ''2'', ''a''] # [[''3'', ''4'', ''b'']]"
    by code_simp
  have c4: "\<forall>r \<in> set [[''3'', ''4'', ''b'']]. length r = length [''1'', ''2'', ''a'']" by simp
  have c4': "list_all (\<lambda>r. length r = length [''1'', ''2'', ''a'']) [[''3'', ''4'', ''b'']]"
    by simp
  have c5: "read_space_delimited (one_file sample_crlf) sample_na [''sample.dat''] None True ()
       = Inr ([[Str ''1'', Str ''2''], [Str ''3'', Str ''4'']], [Str ''a'', Str ''b''], ())"
    using label_is_last_field
            [where fs = "one_file sample_crlf" and filename = "[''sample.dat'']"
               and content = sample_crlf and skiprows = None and na = sample_na
               and md = "()", OF c1 c2 c3 c4] c
    by simp
  show ?thesis using a1 a2 a3 a4' a5 b1 b2 b3 b5 c1 c2 c3 c4' c5 by (intro conjI)
qed

section \<open>No character is a comment marker\<close>

lemma sample_hash_short_row_csv:
  "read_csv sample_na (universal_newlines sample_hash_short_row) None
     = Inr \<lparr>ncols = 3, rows = [[Str ''1'', Str ''2'', Str ''a''], [Str ''3'', Str ''#'', NaN]]\<rparr>"
  by code_simp

lemma sample_hash_quoted_csv:
  "read_csv sample_na (universal_newlines sample_hash_quoted) None
     = Inr \<lparr>ncols = 3, rows = [[Str ''a'', Str ''b'', Str ''c''], [Str ''x y'', Str ''#'', NaN]]\<rparr>"
  by code_simp

lemma sample_hash_long_row_csv:
  "read_csv sample_na (universal_newlines sample_hash_long_row) None = Inl ParserError"
  by code_simp

text \<open>
  Claim C1 as stated fails. The second row of the first sample ends in the field \<^verbatim>\<open>#\<close>
  and has a field less than the first row: the file is parsed, and the label of the row
  is \<^verbatim>\<open>nan\<close>, the \<^verbatim>\<open>#\<close> standing in the data. In the second sample both rows have
  three fields, the second ending in \<^verbatim>\<open>#\<close>; its first two fields are the halves of a
  quoted string, which is read as one field, and the label of the row is again \<^verbatim>\<open>nan\<close>.
  The third sample, whose second row ends in \<^verbatim>\<open>#\<close> and is longer than the first, is not
  parsed at all.
\<close>

theorem hash_label_counterexample:
  "file_rows None sample_hash_short_row = [[''1'', ''2'', ''a''], [''3'', ''#'']]
   \<and> read_space_delimited (one_file sample_hash_short_row) sample_na [''sample.dat''] None True ()
       = Inr ([[Str ''1'', Str ''2''], [Str ''3'', Str ''#'']], [Str ''a'', NaN], ())
   \<and> file_rows None sample_hash_quoted
       = [[''a'', ''b'', ''c''], [[QUOTE, CHR ''x''], [CHR ''y'', QUOTE], ''#'']]
   \<and> read_space_delimited (one_file sample_hash_quoted) sample_na [''sample.dat''] None True ()
       = Inr ([[Str ''a'', Str ''b''], [Str ''x y'', Str ''#'']], [Str ''c'', NaN], ())
   \<and> file_rows None sample_hash_long_row = [[''1'', ''2''], [''3'', ''4'', ''#'']]
   \<and> read_space_delimited (one_file sample_hash_long_row) sample_na [''sample.dat''] None True ()
       = Inl ParserError"
proof (intro conjI)
  show "file_rows None sample_hash_short_row = [[''1'', ''2'', ''a''], [''3'', ''#'']]"
    by code_simp
  show "read_space_delimited (one_file sample_hash_short_row) sample_na [''sample.dat''] None True ()
       = Inr ([[Str ''1'', Str ''2''], [Str ''3'', Str ''#'']], [Str ''a'', NaN], ())"
    by (simp add: read_one_file sample_hash_short_row_csv)
  show "file_rows None sample_hash_quoted
       = [[''a'', ''b'', ''c''], [[QUOTE, CHR ''x''], [CHR ''y'', QUOTE], ''#'']]"
    by code_simp
  show "read_space_delimited (one_file sample_hash_quoted) sample_na [''sample.dat''] None True ()
       = Inr ([[Str ''a'', Str ''b''], [Str ''x y'', Str ''#'']], [Str ''c'', NaN], ())"
    by (simp add: read_one_file sample_hash_quoted_csv)
  show "file_rows None sample_hash_long_row = [[''1'', ''2''], [''3'', ''4'', ''#'']]"
    by code_simp
  show "read_space_delimited (one_file sample_hash_long_row) sample_na [''sample.dat''] None True ()
       = Inl ParserError"
    by (simp add: read_one_file sample_hash_long_row_csv)
qed

lemma to_cell_hash: "''#'' \<notin> set na \<Longrightarrow> to_cell na ''#'' = Str ''#''"
  by (simp add: to_cell_def)

text \<open>
  Claim C1, amended. The parser has no comment character. When a file without double
  quotes is parsed with \<^verbatim>\<open>class_labels\<close> true, there is one data row and one label for
  each row of the file, and for every row that has as many fields as the first row, the
  data row followed by the label is the row of the file, field by field, each field as its
  cell (the field cut at its first NUL byte, or \<^verbatim>\<open>nan\<close> when what is left is a
  missing-value marker, which \<^verbatim>\<open>#\<close> is not): a field \<^verbatim>\<open>#\<close> is the string \<^verbatim>\<open>#\<close> at
  its place, the label when it is the last field, and nothing after it is dropped.
\<close>

theorem hash_field_is_kept:
  assumes "fs filename = Some content" and "QUOTE \<notin> set content" and "''#'' \<notin> set na"
    and "read_space_delimited fs na filename skiprows True md = Inr (data, target, md')"
    and "i < length (file_rows skiprows content)"
    and "length (file_rows skiprows content ! i) = length (file_rows skiprows content ! 0)"
  shows "length data = length (file_rows skiprows content)
       \<and> length target = length (file_rows skiprows content)
       \<and> data ! i @ [target ! i] = map (to_cell na) (file_rows skiprows content ! i)
       \<and> (\<forall>j < length (file_rows skiprows content ! i).
             file_rows skiprows content ! i ! j = ''#'' \<longrightarrow> (data ! i @ [target ! i]) ! j = Str ''#'')
       \<and> (last (file_rows skiprows content ! i) = ''#'' \<longrightarrow> target ! i = Str ''#'')"
proof -
  let ?R = "file_rows skiprows content"
  obtain r0 rs where R: "?R = r0 # rs" using assms(5) by (cases ?R) auto
  let ?w = "length r0"
  note p = read_space_delimited_plain
             [where fs = fs and filename = filename and content = content and na = na
                and skiprows = skiprows and class_labels = True and md = md, OF assms(1,2)]
  have res: "data = map (\<lambda>r. take (?w - 1) (convert_row na ?w r)) ?R"
            "target = map (\<lambda>r. convert_row na ?w r ! (?w - 1)) ?R"
    using p assms(4) R by (auto split: sum.splits)
  let ?r = "?R ! i"
  have w: "length ?r = ?w" using assms(6) R by simp
  have ne: "?r \<noteq> []" using file_rows_ne[of ?r skiprows content] assms(5) by simp
  have di: "data ! i = map (to_cell na) (butlast ?r)"
    using res(1) assms(5) take_convert_row_exact(1)[OF w ne] by simp
  have ti: "target ! i = to_cell na (last ?r)"
    using res(2) assms(5) take_convert_row_exact(2)[OF w ne] by simp
  have row: "data ! i @ [target ! i] = map (to_cell na) ?r"
  proof -
    have "map (to_cell na) ?r = map (to_cell na) (butlast ?r @ [last ?r])"
      using ne by simp
    then show ?thesis using di ti by simp
  qed
  have "length data = length ?R" "length target = length ?R" using res by simp_all
  moreover have "(data ! i @ [target ! i]) ! j = Str ''#''"
    if "j < length ?r" "?r ! j = ''#''" for j
    using that row to_cell_hash[OF assms(3)] by simp
  moreover have "target ! i = Str ''#''" if "last ?r = ''#''"
    using that ti to_cell_hash[OF assms(3)] by simp
  ultimately show ?thesis using row by blast
qed

theorem hash_field_is_kept_witness:
  "one_file sample_ex1 [''sample.dat''] = Some sample_ex1
   \<and> QUOTE \<notin> set sample_ex1
   \<and> ''#'' \<notin> set sample_na
   \<and> read_space_delimited (one_file sample_ex1) sample_na [''sample.dat''] (Some [0, 1]) True ()
       = Inr ([[Str ''1.5'', Str ''2.5''], [Str ''0.5'', Str ''1.0'']], [Str ''A'', Str ''#''], ())
   \<and> file_rows (Some [0, 1]) sample_ex1 = [[''1.5'', ''2.5'', ''A''], [''0.5'', ''1.0'', ''#'']]
   \<and> 1 < length (file_rows (Some [0, 1]) sample_ex1)
   \<and> length (file_rows (Some [0, 1]) sample_ex1 ! 1) = length (file_rows (Some [0, 1]) sample_ex1 ! 0)
   \<and> last (file_rows (Some [0, 1]) sample_ex1 ! 1) = ''#''
   \<and> [[Str ''1.5'', Str ''2.5''], [Str ''0.5'', Str ''1.0'']] ! 1 @ [[Str ''A'', Str ''#''] ! 1]
       = map (to_cell sample_na) (file_rows (Some [0, 1]) sample_ex1 ! 1)
   \<and> [Str ''A'', Str ''#''] ! 1 = Str ''#''"
proof -
  have h1: "one_file sample_ex1 [''sample.dat''] = Some sample_ex1" by (rule one_file_lookup)
  have h2: "QUOTE \<notin> set sample_ex1" by (simp add: sample_ex1_def)
  have h3: "''#'' \<notin> set sample_na" by (simp add: sample_na_def)
  have h4: "read_space_delimited (one_file sample_ex1) sample_na [''sample.dat''] (Some [0, 1]) True ()
       = Inr ([[Str ''1.5'', Str ''2.5''], [Str ''0.5'', Str ''1.0'']], [Str ''A'', Str ''#''], ())"
    by (simp add: read_one_file sample_ex1_csv del: One_nat_def)
  have R: "file_rows (Some [0, 1]) sample_ex1 = [[''1.5'', ''2.5'', ''A''], [''0.5'', ''1.0'', ''#'']]"
    by code_simp
  have h5: "1 < length (file_rows (Some [0, 1]) sample_ex1)" unfolding R by simp
  have h6: "length (file_rows (Some [0, 1]) sample_ex1 ! 1) = length (file_rows (Some [0, 1]) sample_ex1 ! 0)"
    unfolding R by simp
  have h7: "last (file_rows (Some [0, 1]) sample_ex1 ! 1) = ''#''" unfolding R by simp
  note T = hash_field_is_kept
             [where fs = "one_file sample_ex1" and filename = "[''sample.dat'']"
                and content = sample_ex1 and na = sample_na and skiprows = "Some [0, 1]"
                and md = "()" and md' = "()" and i = 1
                and data = "[[Str ''1.5'', Str ''2.5''], [Str ''0.5'', Str ''1.0'']]"
                and target = "[Str ''A'', Str ''#'']", OF h1 h2 h3 h4 h5 h6]
  note c3 = T [THEN conjunct2, THEN conjunct2, THEN conjunct1]
  note c5 = T [THEN conjunct2, THEN conjunct2, THEN conjunct2, THEN conjunct2, THEN mp, OF h7]
  show ?thesis using h1 h2 h3 h4 R h5 h6 h7 c3 c5 by (intro conjI)
qed

section \<open>Fields are separated by single spaces\<close>

lemma fields_of_no_space: "f \<in> set (fields_of l) \<Longrightarrow> SP \<notin> set f"
  by (induction l arbitrary: f) (auto split: if_splits list.splits)

lemma fields_of_join: "concat (map (\<lambda>f. f @ [SP]) (fields_of l)) = l @ [SP]"
  by (induction l) (auto split: list.splits)

lemma sample_two_spaces_csv:
  "read_csv sample_na (universal_newlines sample_two_spaces) None
     = Inr \<lparr>ncols = 3, rows = [[Str ''a'', NaN, Str ''b'']]\<rparr>"
  by code_simp

lemma sample_tab_csv:
  "read_csv sample_na (universal_newlines sample_tab) None
     = Inr \<lparr>ncols = 1, rows = [[Str [CHR ''a'', TAB, CHR ''b'']]]\<rparr>"
  by code_simp

lemma sample_quoted_field_csv:
  "read_csv sample_na (universal_newlines sample_quoted_field) None
     = Inr \<lparr>ncols = 2, rows = [[Str ''a b'', Str ''c'']]\<rparr>"
  by code_simp

text \<open>
  Claim C3 as stated fails: the line \<^verbatim>\<open>a  b\<close>, with two spaces, has two maximal runs
  of characters that are not white space, and is parsed into three fields, the middle one
  empty (a missing value); a line with a tab between \<^verbatim>\<open>a\<close> and \<^verbatim>\<open>b\<close> has two such
  runs and is parsed into one field; and a line that opens with the quoted string
  \<^verbatim>\<open>"a b"\<close> and goes on with \<^verbatim>\<open> c\<close> has three runs, and three pieces between its
  spaces, and is parsed into two fields.
\<close>

theorem whitespace_runs_counterexample:
  "lines_of (csv_text sample_two_spaces) = [''a  b'']
   \<and> spec_fields_of ''a  b'' = [''a'', ''b'']
   \<and> read_space_delimited (one_file sample_two_spaces) sample_na [''sample.dat''] None False ()
       = Inr ([[Str ''a'', NaN, Str ''b'']], [Zero], ())
   \<and> lines_of (csv_text sample_tab) = [[CHR ''a'', TAB, CHR ''b'']]
   \<and> spec_fields_of [CHR ''a'', TAB, CHR ''b''] = [''a'', ''b'']
   \<and> read_space_delimited (one_file sample_tab) sample_na [''sample.dat''] None False ()
       = Inr ([[Str [CHR ''a'', TAB, CHR ''b'']]], [Zero], ())
   \<and> lines_of (csv_text sample_quoted_field) = [[QUOTE] @ ''a b'' @ [QUOTE] @ '' c'']
   \<and> spec_fields_of ([QUOTE] @ ''a b'' @ [QUOTE] @ '' c'')
       = [[QUOTE, CHR ''a''], [CHR ''b'', QUOTE], ''c'']
   \<and> fields_of ([QUOTE] @ ''a b'' @ [QUOTE] @ '' c'')
       = [[QUOTE, CHR ''a''], [CHR ''b'', QUOTE], ''c'']
   \<and> read_space_delimited (one_file sample_quoted_field) sample_na [''sample.dat''] None False ()
       = Inr ([[Str ''a b'', Str ''c'']], [Zero], ())"
proof (intro conjI)
  show "lines_of (csv_text sample_two_spaces) = [''a  b'']" by code_simp
  show "spec_fields_of ''a  b'' = [''a'', ''b'']" by code_simp
  show "read_space_delimited (one_file sample_two_spaces) sample_na [''sample.dat''] None False ()
       = Inr ([[Str ''a'', NaN, Str ''b'']], [Zero], ())"
    by (simp add: read_one_file sample_two_spaces_csv np_zeros_def)
  show "lines_of (csv_text sample_tab) = [[CHR ''a'', TAB, CHR ''b'']]" by code_simp
  show "spec_fields_of [CHR ''a'', TAB, CHR ''b''] = [''a'', ''b'']" by code_simp
  show "read_space_delimited (one_file sample_tab) sample_na [''sample.dat''] None False ()
       = Inr ([[Str [CHR ''a'', TAB, CHR ''b'']]], [Zero], ())"
    by (simp add: read_one_file sample_tab_csv np_zeros_def)
  show "lines_of (csv_text sample_quoted_field) = [[QUOTE] @ ''a b'' @ [QUOTE] @ '' c'']"
    by code_simp
  show "spec_fields_of ([QUOTE] @ ''a b'' @ [QUOTE] @ '' c'')
       = [[QUOTE, CHR ''a''], [CHR ''b'', QUOTE], ''c'']"
    by code_simp
  show "fields_of ([QUOTE] @ ''a b'' @ [QUOTE] @ '' c'')
       = [[QUOTE, CHR ''a''], [CHR ''b'', QUOTE], ''c'']"
    by code_simp
  show "read_space_delimited (one_file sample_quoted_field) sample_na [''sample.dat''] None False ()
       = Inr ([[Str ''a b'', Str ''c'']], [Zero], ())"
    by (simp add: read_one_file sample_quoted_field_csv np_zeros_def)
qed

text \<open>
  Claim C3, amended. The parser splits every row at each single space. Take a file
  without double quotes that is parsed, and its kept lines: the lines of its text (without
  a byte-order mark at the start) that are neither skipped nor blank. There is a kept
  line, and the data has one row for each. The fields of a kept line are its pieces
  between spaces: no field holds a space, the fields joined by spaces are the line, and
  there is one field more than the line has spaces. Row \<open>i\<close> of the data holds the cells
  of the fields of kept line \<open>i\<close>, cut or filled up with empty fields to the number of
  fields of the first kept line; the cell of a field is the field cut at its first NUL
  byte, or \<^verbatim>\<open>nan\<close> when what is left is a missing-value marker.
\<close>

theorem fields_split_at_each_space:
  assumes "fs filename = Some content" and "QUOTE \<notin> set content"
    and "read_space_delimited fs na filename skiprows False md = Inr (data, target, md')"
    and "kept = kept_lines (skip_list skiprows) (csv_text content)"
  shows "kept \<noteq> [] \<and> length data = length kept
       \<and> (\<forall>i < length kept.
             (\<forall>f \<in> set (fields_of (kept ! i)). SP \<notin> set f)
           \<and> concat (map (\<lambda>f. f @ [SP]) (fields_of (kept ! i))) = kept ! i @ [SP]
           \<and> length (fields_of (kept ! i)) = count_list (kept ! i) SP + 1
           \<and> data ! i = map (to_cell na)
                           (take (count_list (hd kept) SP + 1)
                              (pad_to (count_list (hd kept) SP + 1) [] (fields_of (kept ! i)))))"
proof -
  let ?R = "file_rows skiprows content"
  have R: "?R = map fields_of kept" using assms(4) by (simp add: file_rows_def)
  note p = read_space_delimited_plain
             [where fs = fs and filename = filename and content = content and na = na
                and skiprows = skiprows and class_labels = False and md = md, OF assms(1,2)]
  from p assms(3) obtain r0 rs where
    c: "?R = r0 # rs" and d: "data = map (convert_row na (length r0)) ?R"
    by (cases ?R) (auto split: sum.splits)
  have ne: "kept \<noteq> []" using c R by auto
  then have r0: "r0 = fields_of (hd kept)" using c R by (cases kept) auto
  have w: "length r0 = count_list (hd kept) SP + 1" using r0 by (simp add: length_fields_of)
  have len: "length data = length kept" using d R by simp
  have "data ! i = map (to_cell na)
                           (take (count_list (hd kept) SP + 1)
                              (pad_to (count_list (hd kept) SP + 1) [] (fields_of (kept ! i))))"
    if "i < length kept" for i
    using that d R w by (simp add: convert_row_def del: fields_of.simps)
  then show ?thesis
    using ne len fields_of_no_space fields_of_join length_fields_of by blast
qed

theorem fields_split_at_each_space_witness:
  "one_file sample_two_spaces [''sample.dat''] = Some sample_two_spaces
   \<and> QUOTE \<notin> set sample_two_spaces
   \<and> read_space_delimited (one_file sample_two_spaces) sample_na [''sample.dat''] None False ()
       = Inr ([[Str ''a'', NaN, Str ''b'']], [Zero], ())
   \<and> [''a  b''] = kept_lines (skip_list None) (csv_text sample_two_spaces)
   \<and> length [[Str ''a'', NaN, Str ''b'']] = length [''a  b'']
   \<and> 0 < length [''a  b'']
   \<and> length (fields_of ([''a  b''] ! 0)) = count_list ([''a  b''] ! 0) SP + 1
   \<and> [[Str ''a'', NaN, Str ''b'']] ! 0
       = map (to_cell sample_na)
           (take (count_list (hd [''a  b'']) SP + 1)
              (pad_to (count_list (hd [''a  b'']) SP + 1) [] (fields_of ([''a  b''] ! 0))))"
proof -
  have h1: "one_file sample_two_spaces [''sample.dat''] = Some sample_two_spaces"
    by (rule one_file_lookup)
  have h2: "QUOTE \<notin> set sample_two_spaces" by (simp add: sample_two_spaces_def)
  have h3: "read_space_delimited (one_file sample_two_spaces) sample_na [''sample.dat''] None False ()
       = Inr ([[Str ''a'', NaN, Str ''b'']], [Zero], ())"
    by (simp add: read_one_file sample_two_spaces_csv np_zeros_def)
  have h4: "[''a  b''] = kept_lines (skip_list None) (csv_text sample_two_spaces)"
    by code_simp
  have h5: "0 < length [''a  b'']" by simp
  note T = fields_split_at_each_space
             [where fs = "one_file sample_two_spaces" and filename = "[''sample.dat'']"
                and content = sample_two_spaces and na = sample_na and skiprows = None
                and md = "()" and md' = "()" and data = "[[Str ''a'', NaN, Str ''b'']]"
                and target = "[Zero]" and kept = "[''a  b'']", OF h1 h2 h3 h4]
  note c2 = T [THEN conjunct2, THEN conjunct1]
  note c3 = T [THEN conjunct2, THEN conjunct2, THEN spec, of 0, THEN mp, OF h5]
  show ?thesis
    using h1 h2 h3 h4 c2 h5 c3 [THEN conjunct2, THEN conjunct2, THEN conjunct1]
          c3 [THEN conjunct2, THEN conjunct2, THEN conjunct2]
    by (intro conjI)
qed

section \<open>Rows of different lengths\<close>

lemma buffer_lines_2: "buffer_lines 2 = 262144"
  by code_simp

lemma buffer_lines_3: "buffer_lines 3 = 262144"
  by code_simp

lemma buffer_lines_Suc:
  "buffer_lines (Suc (Suc 0)) = 262144" "buffer_lines (Suc (Suc (Suc 0))) = 262144"
  using buffer_lines_2 buffer_lines_3 by (simp_all add: numeral_2_eq_2 numeral_3_eq_3)

lemma convert_row_short:
  "length r \<le> w \<Longrightarrow> convert_row na w r = map (to_cell na) (pad_to w [] r)"
  by (simp add: convert_row_def pad_to_def)

lemma lines_of_replicate:
  "LF \<notin> set l \<Longrightarrow> lines_of (concat (replicate n (l @ [LF])) @ t) = replicate n l @ lines_of t"
  by (induction n) (simp_all add: lines_of_line)

lemma kept_from_replicate:
  "\<not> blank_line l \<Longrightarrow> kept_from [] k (replicate n l @ ls) = replicate n l @ kept_from [] (k + n) ls"
  by (induction n arbitrary: k) simp_all

lemma sample_block_chars: "set (sample_block @ t) \<subseteq> set ''a b'' \<union> {LF} \<union> set t"
  by (auto simp: sample_block_def)

lemma csv_text_sample_block:
  assumes "CR \<notin> set t" "CHR 0xEF \<notin> set t"
  shows "csv_text (sample_block @ t) = sample_block @ t"
proof -
  have "CR \<notin> set (sample_block @ t)" "CHR 0xEF \<notin> set (sample_block @ t)"
    using sample_block_chars[of t] assms by auto
  then show ?thesis by (simp add: csv_text_def universal_newlines_id check_for_bom_id)
qed

lemma file_rows_sample_block:
  assumes "CR \<notin> set t" "CHR 0xEF \<notin> set t"
  shows "file_rows None (sample_block @ t)
           = replicate (nat (buffer_lines 2)) [''a'', ''b''] @ map fields_of (kept_from [] (nat (buffer_lines 2)) (lines_of t))"
proof -
  have l: "LF \<notin> set ''a b''" and b: "\<not> blank_line ''a b''" by simp_all
  have f: "fields_of ''a b'' = [''a'', ''b'']" by simp
  have "kept_lines [] (sample_block @ t)
          = replicate (nat (buffer_lines 2)) ''a b'' @ kept_from [] (nat (buffer_lines 2)) (lines_of t)"
    unfolding kept_lines_def sample_block_def lines_of_replicate[OF l]
    using kept_from_replicate[OF b, of 0] by simp
  then show ?thesis
    using f by (simp add: file_rows_def skip_list_def csv_text_sample_block[OF assms] del: fields_of.simps)
qed

lemma file_rows_block_then_long:
  "file_rows None sample_block_then_long
     = replicate (nat (buffer_lines 2)) [''a'', ''b''] @ [[''c'', ''d'', ''e'']]"
  unfolding sample_block_then_long_def
  by (subst file_rows_sample_block) simp_all

lemma file_rows_block_short_full:
  "file_rows None sample_block_short_full
     = replicate (nat (buffer_lines 2)) [''a'', ''b''] @ [[''c''], [''d'', ''e'']]"
  unfolding sample_block_short_full_def
  by (subst file_rows_sample_block) simp_all

lemma read_rows_block_then_row:
  assumes "buffer_lines (length r) = int n" "1 < n"
  shows "read_rows (replicate n r @ [r']) = Inr (replicate n r @ [r'])"
proof -
  obtain m where n: "n = Suc m" using assms(2) by (cases n) auto
  have tw: "table_width [replicate n r] [r'] = length r" by (simp add: table_width_def n)
  have "push_row [replicate n r] [] r' = Inr ([replicate n r], [r'])"
    using assms by (simp add: push_row_def Let_def tw)
  then show ?thesis
    using push_rows_full_block[OF assms(1), of "[r']"] by (simp add: read_rows_def)
qed

lemma read_rows_block_then_short_full:
  assumes "buffer_lines (length r) = int n" "1 < n" "length r1 < length r2"
  shows "read_rows (replicate n r @ [r1, r2]) = Inl ParserError"
proof -
  obtain m where n: "n = Suc m" using assms(2) by (cases n) auto
  have tw: "table_width [replicate n r] [r1] = length r" by (simp add: table_width_def n)
  have "push_row [replicate n r] [] r1 = Inr ([replicate n r], [r1])"
    using assms by (simp add: push_row_def Let_def tw)
  moreover have "push_row [replicate n r] [r1] r2 = Inl ParserError"
    using assms(3) by (simp add: push_row_def Let_def)
  ultimately show ?thesis
    using push_rows_full_block[OF assms(1), of "[r1, r2]"] by (simp add: read_rows_def)
qed

lemma sample_short_row_csv:
  "read_csv sample_na (universal_newlines sample_short_row) None
     = Inr \<lparr>ncols = 3, rows = [[Str ''a'', Str ''b'', Str ''c''], [Str ''d'', Str ''e'', NaN]]\<rparr>"
  by code_simp

lemma sample_quoted_long_csv:
  "read_csv sample_na (universal_newlines sample_quoted_long) None
     = Inr \<lparr>ncols = 2, rows = [[Str ''a'', Str ''b''], [Str ''c d'', Str ''e'']]\<rparr>"
  by code_simp

lemma sample_block_then_long_read:
  "read_space_delimited (one_file sample_block_then_long) sample_na [''sample.dat''] None True ()
     = Inr (replicate (nat (buffer_lines 2)) [Str ''a''] @ [[Str ''c'']],
            replicate (nat (buffer_lines 2)) (Str ''b'') @ [Str ''d''], ())"
proof -
  let ?n = "nat (buffer_lines 2)"
  obtain m where n: "?n = Suc m" by (cases ?n) (simp_all add: buffer_lines_2 buffer_lines_Suc)
  have q: "QUOTE \<notin> set sample_block_then_long"
    using sample_block_chars[of "''c d e'' @ [LF]"] by (auto simp: sample_block_then_long_def)
  have R: "file_rows None sample_block_then_long
             = [''a'', ''b''] # (replicate m [''a'', ''b''] @ [[''c'', ''d'', ''e'']])"
    using file_rows_block_then_long n by simp
  have "read_rows (replicate ?n [''a'', ''b''] @ [[''c'', ''d'', ''e'']])
          = Inr (replicate ?n [''a'', ''b''] @ [[''c'', ''d'', ''e'']])"
    by (rule read_rows_block_then_row) (simp_all add: buffer_lines_2 buffer_lines_Suc)
  then have rr: "read_rows (file_rows None sample_block_then_long)
          = Inr (replicate ?n [''a'', ''b''] @ [[''c'', ''d'', ''e'']])"
    by (simp only: file_rows_block_then_long)
  have c: "convert_row sample_na (Suc (Suc 0)) [''a'', ''b''] = [Str ''a'', Str ''b'']"
          "convert_row sample_na (Suc (Suc 0)) [''c'', ''d'', ''e''] = [Str ''c'', Str ''d'']"
    by code_simp+
  note p = read_space_delimited_plain
            [where fs = "one_file sample_block_then_long" and filename = "[''sample.dat'']"
               and content = sample_block_then_long and na = sample_na and skiprows = None
               and class_labels = True and md = "()", OF one_file_lookup q]
  have "read_space_delimited (one_file sample_block_then_long) sample_na [''sample.dat''] None True ()
          = Inr (map (\<lambda>r. take (length [''a'', ''b''] - 1) (convert_row sample_na (length [''a'', ''b'']) r))
                   ([''a'', ''b''] # (replicate m [''a'', ''b''] @ [[''c'', ''d'', ''e'']])),
                 map (\<lambda>r. convert_row sample_na (length [''a'', ''b'']) r ! (length [''a'', ''b''] - 1))
                   ([''a'', ''b''] # (replicate m [''a'', ''b''] @ [[''c'', ''d'', ''e'']])), ())"
    using p rr by (simp only: R sum.case list.case if_True)
  then show ?thesis by (simp add: c n)
qed

lemma sample_block_short_full_read:
  "read_space_delimited (one_file sample_block_short_full) sample_na [''sample.dat''] None True ()
     = Inl ParserError"
proof -
  let ?n = "nat (buffer_lines 2)"
  have q: "QUOTE \<notin> set sample_block_short_full"
    using sample_block_chars[of "''c'' @ [LF] @ ''d e'' @ [LF]"]
    by (auto simp: sample_block_short_full_def)
  have "read_rows (replicate ?n [''a'', ''b''] @ [[''c''], [''d'', ''e'']]) = Inl ParserError"
    by (rule read_rows_block_then_short_full) (simp_all add: buffer_lines_2 buffer_lines_Suc)
  then have rr: "read_rows (file_rows None sample_block_short_full) = Inl ParserError"
    by (simp only: file_rows_block_short_full)
  show ?thesis
    using read_space_delimited_plain
            [where fs = "one_file sample_block_short_full" and filename = "[''sample.dat'']"
               and content = sample_block_short_full and na = sample_na and skiprows = None
               and class_labels = True and md = "()", OF one_file_lookup q]
    by (simp add: rr)
qed

text \<open>
  Claim C4 as stated fails. The second row of the first sample has two fields, the first
  has three, and \<^verbatim>\<open>read_space_delimited\<close> returns a result, the short row filled up with
  a missing value. The second row of the second sample has three fields, the first has
  two, and the file is parsed all the same: two of the three are the halves of a quoted
  string. The third sample has 262144 rows of two fields and then a row of three, which
  is the first row of the reader's second block: the file is parsed, and the long row is
  cut to two cells. The fourth sample has the same 262144 rows, then a row of one field
  and a row of two: no row is longer than the first, and the file is not parsed, the row
  of two fields being longer than the row before it in its block.
\<close>

theorem short_row_counterexample:
  "file_rows None sample_short_row = [[''a'', ''b'', ''c''], [''d'', ''e'']]
   \<and> read_space_delimited (one_file sample_short_row) sample_na [''sample.dat''] None True ()
       = Inr ([[Str ''a'', Str ''b''], [Str ''d'', Str ''e'']], [Str ''c'', NaN], ())
   \<and> file_rows None sample_quoted_long
       = [[''a'', ''b''], [[QUOTE, CHR ''c''], [CHR ''d'', QUOTE], ''e'']]
   \<and> read_space_delimited (one_file sample_quoted_long) sample_na [''sample.dat''] None True ()
       = Inr ([[Str ''a''], [Str ''c d'']], [Str ''b'', Str ''e''], ())
   \<and> buffer_lines 2 = 262144
   \<and> file_rows None sample_block_then_long
       = replicate (nat (buffer_lines 2)) [''a'', ''b''] @ [[''c'', ''d'', ''e'']]
   \<and> read_space_delimited (one_file sample_block_then_long) sample_na [''sample.dat''] None True ()
       = Inr (replicate (nat (buffer_lines 2)) [Str ''a''] @ [[Str ''c'']],
              replicate (nat (buffer_lines 2)) (Str ''b'') @ [Str ''d''], ())
   \<and> file_rows None sample_block_short_full
       = replicate (nat (buffer_lines 2)) [''a'', ''b''] @ [[''c''], [''d'', ''e'']]
   \<and> read_space_delimited (one_file sample_block_short_full) sample_na [''sample.dat''] None True ()
       = Inl ParserError"
proof (intro conjI)
  show "file_rows None sample_short_row = [[''a'', ''b'', ''c''], [''d'', ''e'']]"
    by code_simp
  show "read_space_delimited (one_file sample_short_row) sample_na [''sample.dat''] None True ()
       = Inr ([[Str ''a'', Str ''b''], [Str ''d'', Str ''e'']], [Str ''c'', NaN], ())"
    by (simp add: read_one_file sample_short_row_csv)
  show "file_rows None sample_quoted_long
       = [[''a'', ''b''], [[QUOTE, CHR ''c''], [CHR ''d'', QUOTE], ''e'']]"
    by code_simp
  show "read_space_delimited (one_file sample_quoted_long) sample_na [''sample.dat''] None True ()
       = Inr ([[Str ''a''], [Str ''c d'']], [Str ''b'', Str ''e''], ())"
    by (simp add: read_one_file sample_quoted_long_csv)
  show "buffer_lines 2 = 262144" by (rule buffer_lines_2)
  show "file_rows None sample_block_then_long
       = replicate (nat (buffer_lines 2)) [''a'', ''b''] @ [[''c'', ''d'', ''e'']]"
    by (rule file_rows_block_then_long)
  show "read_space_delimited (one_file sample_block_then_long) sample_na [''sample.dat''] None True ()
       = Inr (replicate (nat (buffer_lines 2)) [Str ''a''] @ [[Str ''c'']],
              replicate (nat (buffer_lines 2)) (Str ''b'') @ [Str ''d''], ())"
    by (rule sample_block_then_long_read)
  show "file_rows None sample_block_short_full
       = replicate (nat (buffer_lines 2)) [''a'', ''b''] @ [[''c''], [''d'', ''e'']]"
    by (rule file_rows_block_short_full)
  show "read_space_delimited (one_file sample_block_short_full) sample_na [''sample.dat''] None True ()
       = Inl ParserError"
    by (rule sample_block_short_full_read)
qed

text \<open>
  Claim C4, amended. The notebook has no check of its own; the library reads the rows in
  blocks of \<open>buffer_lines\<close> rows (262144 for a first row of two or three fields) and
  compares each row with the row before it in its block. Take a file without double
  quotes that has a row (the rows being those of its text without a byte-order mark at
  the start). If one of its first \<open>buffer_lines\<close> rows has more fields than the first
  row, \<^verbatim>\<open>read_space_delimited\<close> fails with the library's \<^verbatim>\<open>ParserError\<close>. If it has at
  most \<open>buffer_lines\<close> rows and none has more fields than the first, it is parsed, with
  one data row and one target entry for each row, a row with fewer fields being filled up
  with empty fields, which become missing values.
\<close>

theorem longer_row_is_an_error:
  assumes "fs filename = Some content" and "QUOTE \<notin> set content"
    and "file_rows skiprows content = r0 # rs"
  shows "((\<exists>i < length rs. int (Suc i) < buffer_lines (length r0) \<and> length r0 < length (rs ! i)) \<longrightarrow>
            read_space_delimited fs na filename skiprows class_labels md = Inl ParserError)
       \<and> (int (Suc (length rs)) \<le> buffer_lines (length r0)
            \<and> (\<forall>r \<in> set rs. length r \<le> length r0) \<longrightarrow>
            (\<exists>data target.
               read_space_delimited fs na filename skiprows class_labels md = Inr (data, target, md)
             \<and> length data = Suc (length rs) \<and> length target = Suc (length rs)
             \<and> (\<not> class_labels \<longrightarrow>
                   data = map (\<lambda>r. map (to_cell na) (pad_to (length r0) [] r)) (r0 # rs))))"
proof (intro conjI impI)
  note p = read_space_delimited_plain
             [where fs = fs and filename = filename and content = content and na = na
                and skiprows = skiprows and class_labels = class_labels and md = md,
              OF assms(1,2)]
  {
    assume "\<exists>i < length rs. int (Suc i) < buffer_lines (length r0) \<and> length r0 < length (rs ! i)"
    then obtain i where "i < length rs" "int (Suc i) < buffer_lines (length r0)"
      "length r0 < length (rs ! i)" by blast
    then have "read_rows (r0 # rs) = Inl ParserError" by (rule read_rows_long_row)
    then show "read_space_delimited fs na filename skiprows class_labels md = Inl ParserError"
      using p assms(3) by simp
  }
  {
    assume a: "int (Suc (length rs)) \<le> buffer_lines (length r0)
                 \<and> (\<forall>r \<in> set rs. length r \<le> length r0)"
    then obtain out where out: "read_rows (r0 # rs) = Inr out"
      using read_rows_one_block[of rs r0] by blast
    have "map (convert_row na (length r0)) (r0 # rs)
            = map (\<lambda>r. map (to_cell na) (pad_to (length r0) [] r)) (r0 # rs)"
      using a by (intro map_cong refl convert_row_short) auto
    then show "\<exists>data target.
               read_space_delimited fs na filename skiprows class_labels md = Inr (data, target, md)
             \<and> length data = Suc (length rs) \<and> length target = Suc (length rs)
             \<and> (\<not> class_labels \<longrightarrow>
                   data = map (\<lambda>r. map (to_cell na) (pad_to (length r0) [] r)) (r0 # rs))"
      using p assms(3) out by (cases class_labels) (simp_all add: np_zeros_def)
  }
qed

theorem longer_row_is_an_error_witness:
  "one_file sample_long_row [''sample.dat''] = Some sample_long_row
   \<and> QUOTE \<notin> set sample_long_row
   \<and> file_rows None sample_long_row = [''a'', ''b''] # [[''c'', ''d'', ''e'']]
   \<and> (\<exists>i < length [[''c'', ''d'', ''e'']].
         int (Suc i) < buffer_lines (length [''a'', ''b''])
         \<and> length [''a'', ''b''] < length ([[''c'', ''d'', ''e'']] ! i))
   \<and> read_space_delimited (one_file sample_long_row) sample_na [''sample.dat''] None True () = Inl ParserError
   \<and> one_file sample_short_row [''sample.dat''] = Some sample_short_row
   \<and> QUOTE \<notin> set sample_short_row
   \<and> file_rows None sample_short_row = [''a'', ''b'', ''c''] # [[''d'', ''e'']]
   \<and> int (Suc (length [[''d'', ''e'']])) \<le> buffer_lines (length [''a'', ''b'', ''c''])
   \<and> list_all (\<lambda>r. length r \<le> length [''a'', ''b'', ''c'']) [[''d'', ''e'']]
   \<and> (\<exists>data target.
         read_space_delimited (one_file sample_short_row) sample_na [''sample.dat''] None True ()
           = Inr (data, target, ())
       \<and> length data = Suc (length [[''d'', ''e'']]) \<and> length target = Suc (length [[''d'', ''e'']]))"
proof -
  have a1: "one_file sample_long_row [''sample.dat''] = Some sample_long_row"
    by (rule one_file_lookup)
  have a2: "QUOTE \<notin> set sample_long_row" by (simp add: sample_long_row_def)
  have a3: "file_rows None sample_long_row = [''a'', ''b''] # [[''c'', ''d'', ''e'']]"
    by code_simp
  have a4: "\<exists>i < length [[''c'', ''d'', ''e'']].
         int (Suc i) < buffer_lines (length [''a'', ''b''])
         \<and> length [''a'', ''b''] < length ([[''c'', ''d'', ''e'']] ! i)"
    by (simp add: buffer_lines_Suc)
  have b1: "one_file sample_short_row [''sample.dat''] = Some sample_short_row"
    by (rule one_file_lookup)
  have b2: "QUOTE \<notin> set sample_short_row" by (simp add: sample_short_row_def)
  have b3: "file_rows None sample_short_row = [''a'', ''b'', ''c''] # [[''d'', ''e'']]"
    by code_simp
  have b4: "int (Suc (length [[''d'', ''e'']])) \<le> buffer_lines (length [''a'', ''b'', ''c''])"
    by (simp add: buffer_lines_Suc)
  have b5: "\<forall>r \<in> set [[''d'', ''e'']]. length r \<le> length [''a'', ''b'', ''c'']" by simp
  have b5': "list_all (\<lambda>r. length r \<le> length [''a'', ''b'', ''c'']) [[''d'', ''e'']]" by simp
  note A = longer_row_is_an_error
             [where fs = "one_file sample_long_row" and filename = "[''sample.dat'']"
                and content = sample_long_row and skiprows = None and na = sample_na
                and class_labels = True and md = "()",
              OF a1 a2 a3, THEN conjunct1, THEN mp, OF a4]
  note B = longer_row_is_an_error
             [where fs = "one_file sample_short_row" and filename = "[''sample.dat'']"
                and content = sample_short_row and skiprows = None and na = sample_na
                and class_labels = True and md = "()",
              OF b1 b2 b3, THEN conjunct2, THEN mp, OF conjI [OF b4 b5]]
  have B': "\<exists>data target.
         read_space_delimited (one_file sample_short_row) sample_na [''sample.dat''] None True ()
           = Inr (data, target, ())
       \<and> length data = Suc (length [[''d'', ''e'']]) \<and> length target = Suc (length [[''d'', ''e'']])"
    using B by blast
  show ?thesis using a1 a2 a3 a4 A b1 b2 b3 b4 b5' B' by (intro conjI)
qed

section \<open>Skipped and blank lines\<close>

lemma kept_from_above:
  "(\<And>k. k \<in> set S \<Longrightarrow> k < n) \<Longrightarrow> kept_from S n ls = filter (\<lambda>l. \<not> blank_line l) ls"
proof (induction ls arbitrary: n)
  case Nil
  then show ?case by simp
next
  case (Cons l ls)
  have "n \<notin> set S" using Cons.prems by blast
  moreover have "kept_from S (Suc n) ls = filter (\<lambda>l. \<not> blank_line l) ls"
    using Cons.prems by (intro Cons.IH) (simp add: less_Suc_eq)
  ultimately show ?case by simp
qed

lemma length_filter_not:
  "length (filter (\<lambda>x. \<not> P x) xs) = length xs - length (filter P xs)"
  using sum_length_filter_compl[of P xs] by simp

lemma kept_lines_header_comment:
  assumes "lines_of input = h # c # rest"
  shows "length (kept_lines [0, 1] input) = length rest - length (filter blank_line rest)"
proof -
  have "kept_lines [0, 1] input = kept_from [0, 1] 2 rest"
    using assms by (simp add: kept_lines_def numeral_2_eq_2)
  also have "\<dots> = filter (\<lambda>l. \<not> blank_line l) rest"
    by (rule kept_from_above) auto
  finally show ?thesis by (simp add: length_filter_not)
qed

lemma sample_quoted_newline_csv:
  "read_csv sample_na (universal_newlines sample_quoted_newline) (Some [0, 1])
     = Inr \<lparr>ncols = 2, rows = [[Str (''a'' @ [LF] @ ''b''), Str ''x'']]\<rparr>"
  by code_simp

text \<open>
  Claim C6 as stated fails: the sample has a count line, a comment line and two further
  lines, none of them blank, and parsing it with \<^verbatim>\<open>skiprows=[0,1]\<close> yields one row, not
  two, because a quoted field runs over the line break.
\<close>

theorem quoted_newline_counterexample:
  "lines_of (universal_newlines sample_quoted_newline) = [''2'', ''# c'', [QUOTE, CHR ''a''], [CHR ''b'', QUOTE] @ '' x'']
   \<and> filter blank_line (lines_of (universal_newlines sample_quoted_newline)) = []
   \<and> read_space_delimited (one_file sample_quoted_newline) sample_na [''sample.dat''] (Some [0, 1]) True ()
       = Inr ([[Str (''a'' @ [LF] @ ''b'')]], [Str ''x''], ())"
proof (intro conjI)
  show "lines_of (universal_newlines sample_quoted_newline) = [''2'', ''# c'', [QUOTE, CHR ''a''], [CHR ''b'', QUOTE] @ '' x'']"
    by code_simp
  show "filter blank_line (lines_of (universal_newlines sample_quoted_newline)) = []"
    by code_simp
  show "read_space_delimited (one_file sample_quoted_newline) sample_na [''sample.dat''] (Some [0, 1]) True ()
       = Inr ([[Str (''a'' @ [LF] @ ''b'')]], [Str ''x''], ())"
    by (simp add: read_space_delimited_def one_file_def sample_quoted_newline_csv del: One_nat_def)
qed

text \<open>
  Claim C6, amended. \<^verbatim>\<open>skiprows\<close> lists zero-indexed line numbers that are dropped, and
  blank lines (empty or tabs only) are dropped without counting. For a file without double
  quotes whose first two lines are not blank, if parsing with \<^verbatim>\<open>skiprows=[0,1]\<close> returns,
  the number of data rows is the number of kept lines, which is the number of lines of the
  file minus 2 minus the number of blank lines, and the target has one entry per row.
\<close>

theorem row_count_after_header_and_comment:
  assumes "fs filename = Some content" and "QUOTE \<notin> set content"
    and "read_space_delimited fs na filename (Some [0, 1]) class_labels md = Inr (data, target, md')"
    and "lines_of (universal_newlines content) = h # c # rest"
    and "\<not> blank_line h" and "\<not> blank_line c"
  shows "length data = length (kept_lines [0, 1] (universal_newlines content))
       \<and> length data = length (lines_of (universal_newlines content)) - 2
                          - length (filter blank_line (lines_of (universal_newlines content)))
       \<and> length target = length data"
proof -
  let ?t = "universal_newlines content"
  note p = read_space_delimited_plain
             [where fs = fs and filename = filename and content = content and na = na
                and skiprows = "Some [0, 1]" and class_labels = class_labels and md = md,
              OF assms(1,2)]
  have "length data = length (file_rows (Some [0, 1]) content)
        \<and> length target = length (file_rows (Some [0, 1]) content)"
    using p assms(3)
    by (cases class_labels)
       (auto simp: np_zeros_def simp del: One_nat_def split: sum.splits list.splits)
  then have d: "length data = length (kept_lines [0, 1] (check_for_bom ?t))"
    and t: "length target = length data"
    by (simp_all add: file_rows_def csv_text_def skip_list_def del: One_nat_def)
  have "kept_lines [0, 1] (check_for_bom ?t) = kept_lines [0, 1] ?t"
    by (rule kept_lines_bom) simp
  moreover have "length (kept_lines [0, 1] ?t) = length rest - length (filter blank_line rest)"
    using assms(4) by (rule kept_lines_header_comment)
  moreover have "length (lines_of ?t) - 2 - length (filter blank_line (lines_of ?t))
                   = length rest - length (filter blank_line rest)"
    using assms(4,5,6) by simp
  ultimately show ?thesis using d t by simp
qed

lemma sample_blank_lines_csv:
  "read_csv sample_na (universal_newlines sample_blank_lines) (Some [0, 1])
     = Inr \<lparr>ncols = 3, rows = [[Str ''1'', Str ''2'', Str ''A''], [Str ''3'', Str ''4'', Str ''B'']]\<rparr>"
  by code_simp

lemma sample_blank_lines_lines:
  "lines_of (universal_newlines sample_blank_lines) = ''2'' # ''# c'' # [''1 2 A'', [], [TAB], ''3 4 B'']"
  by code_simp

theorem row_count_after_header_and_comment_witness:
  "one_file sample_blank_lines [''sample.dat''] = Some sample_blank_lines
   \<and> QUOTE \<notin> set sample_blank_lines
   \<and> read_space_delimited (one_file sample_blank_lines) sample_na [''sample.dat''] (Some [0, 1]) True ()
       = Inr ([[Str ''1'', Str ''2''], [Str ''3'', Str ''4'']], [Str ''A'', Str ''B''], ())
   \<and> lines_of (universal_newlines sample_blank_lines) = ''2'' # ''# c'' # [''1 2 A'', [], [TAB], ''3 4 B'']
   \<and> \<not> blank_line ''2'' \<and> \<not> blank_line ''# c''
   \<and> length [[Str ''1'', Str ''2''], [Str ''3'', Str ''4'']]
       = length (kept_lines [0, 1] (universal_newlines sample_blank_lines))
   \<and> length [[Str ''1'', Str ''2''], [Str ''3'', Str ''4'']]
       = length (lines_of (universal_newlines sample_blank_lines)) - 2
           - length (filter blank_line (lines_of (universal_newlines sample_blank_lines)))
   \<and> length [Str ''A'', Str ''B''] = length [[Str ''1'', Str ''2''], [Str ''3'', Str ''4'']]"
proof -
  have h1: "one_file sample_blank_lines [''sample.dat''] = Some sample_blank_lines"
    by (simp add: one_file_def)
  have h2: "QUOTE \<notin> set sample_blank_lines" by (simp add: sample_blank_lines_def)
  have h3: "read_space_delimited (one_file sample_blank_lines) sample_na [''sample.dat''] (Some [0, 1]) True ()
       = Inr ([[Str ''1'', Str ''2''], [Str ''3'', Str ''4'']], [Str ''A'', Str ''B''], ())"
    by (simp add: read_space_delimited_def one_file_def sample_blank_lines_csv del: One_nat_def)
  have h4: "lines_of (universal_newlines sample_blank_lines) = ''2'' # ''# c'' # [''1 2 A'', [], [TAB], ''3 4 B'']"
    by (rule sample_blank_lines_lines)
  have h5: "\<not> blank_line ''2''" and h6: "\<not> blank_line ''# c''" by (simp_all add: blank_line_def)
  note T = row_count_after_header_and_comment
             [where fs = "one_file sample_blank_lines" and filename = "[''sample.dat'']"
                and content = sample_blank_lines and na = sample_na and class_labels = True
                and md = "()" and md' = "()", OF h1 h2 h3 h4 h5 h6]
  show ?thesis
    using h1 h2 h3 h4 h5 h6 T [THEN conjunct1] T [THEN conjunct2, THEN conjunct1]
          T [THEN conjunct2, THEN conjunct2]
    by (intro conjI)
qed

end
